theory Spec2Isabelle
  imports Main "HOL-Library.Word"
begin

unbundle bit_operations_syntax

section \<open>shvar.c: shell-variable files, read and rewritten without destroying them\<close>

text \<open>
  The development follows \<^verbatim>\<open>src/settings/plugins/ifcfg-rh/shvar.c\<close>. A C string is
  a \<^typ>\<open>string\<close> (a list of 8-bit characters) that holds no NUL byte; the terminating
  NUL is the end of the list, so \<^verbatim>\<open>value[i] == '\0'\<close> is "the rest of the list is
  empty". A \<^verbatim>\<open>char *\<close> that may be \<^verbatim>\<open>NULL\<close> is a \<^typ>\<open>string option\<close>.
  Buffer sizes (\<^verbatim>\<open>gsize\<close>, \<^verbatim>\<open>int newlen\<close>) are natural numbers: the
  lengths are assumed to stay below the machine limits.
\<close>

subsection \<open>Characters\<close>

abbreviation (input) BSL :: char where "BSL \<equiv> CHR 0x5C"   \<comment> \<open>backslash\<close>
abbreviation (input) DQ :: char where "DQ \<equiv> CHR 0x22"    \<comment> \<open>double quote\<close>
abbreviation (input) SQ :: char where "SQ \<equiv> CHR 0x27"    \<comment> \<open>single quote\<close>
abbreviation (input) NUL :: char where "NUL \<equiv> CHR 0x00"
abbreviation (input) TAB :: char where "TAB \<equiv> CHR 0x09"
abbreviation (input) LF :: char where "LF \<equiv> CHR 0x0A"

text \<open>
  Whether plain \<^verbatim>\<open>char\<close> is signed is implementation-defined in C (signed with gcc on
  x86, unsigned on ARM and POWER). The flag \<open>sg\<close> says which; \<open>char_val sg c\<close> is the
  \<^verbatim>\<open>int\<close> that the character is promoted to in a comparison or a shift.
\<close>

definition char_val :: "bool \<Rightarrow> char \<Rightarrow> int" where
  "char_val sg c =
     (if sg \<and> 128 \<le> (of_char c :: int) then of_char c - 256 else of_char c)"

text \<open>
  GLib's locale-independent character classes (\<^verbatim>\<open>g_ascii_isspace\<close> and friends are
  table lookups of GLib, outside this repository). GLib's table marks space, tab,
  newline, form feed and carriage return as white space.
\<close>

definition g_ascii_isspace :: "char \<Rightarrow> bool" where
  "g_ascii_isspace c \<longleftrightarrow>
     c = CHR '' '' \<or> c = TAB \<or> c = LF \<or> c = CHR 0x0C \<or> c = CHR 0x0D"

definition g_ascii_isdigit :: "char \<Rightarrow> bool" where
  "g_ascii_isdigit c \<longleftrightarrow> (48::nat) \<le> of_char c \<and> of_char c \<le> (57::nat)"

definition g_ascii_isalpha :: "char \<Rightarrow> bool" where
  "g_ascii_isalpha c \<longleftrightarrow>
     ((65::nat) \<le> of_char c \<and> of_char c \<le> (90::nat)) \<or>
     ((97::nat) \<le> of_char c \<and> of_char c \<le> (122::nat))"

definition g_ascii_isalnum :: "char \<Rightarrow> bool" where
  "g_ascii_isalnum c \<longleftrightarrow> g_ascii_isalpha c \<or> g_ascii_isdigit c"

definition g_ascii_isxdigit :: "char \<Rightarrow> bool" where
  "g_ascii_isxdigit c \<longleftrightarrow>
     g_ascii_isdigit c \<or>
     ((65::nat) \<le> of_char c \<and> of_char c \<le> (70::nat)) \<or>
     ((97::nat) \<le> of_char c \<and> of_char c \<le> (102::nat))"

subsection \<open>The name of a shell variable\<close>

text \<open>\<^verbatim>\<open>_shell_is_name (key, -1)\<close>: the whole NUL-terminated string is an identifier.\<close>

definition shell_is_name :: "string \<Rightarrow> bool" where
  "shell_is_name k =
     (case k of
        [] \<Rightarrow> False
      | c # cs \<Rightarrow>
          (g_ascii_isalpha c \<or> c = CHR ''_'') \<and>
          list_all (\<lambda>d. g_ascii_isalnum d \<or> d = CHR ''_'') cs)"

subsection \<open>Encoding: \<^verbatim>\<open>svEscape\<close>\<close>

definition char_req_escape :: "char \<Rightarrow> bool" where
  "char_req_escape ch \<longleftrightarrow> ch = DQ \<or> ch = BSL \<or> ch = CHR ''$'' \<or> ch = CHR 0x60"

definition char_req_escape_old :: "char \<Rightarrow> bool" where
  "char_req_escape_old ch \<longleftrightarrow>
     ch = DQ \<or> ch = BSL \<or> ch = SQ \<or> ch = CHR ''$'' \<or> ch = CHR 0x60 \<or> ch = CHR ''~''"

definition char_req_quotes :: "char \<Rightarrow> bool" where
  "char_req_quotes ch \<longleftrightarrow>
     ch = CHR '' '' \<or> ch = SQ \<or> ch = CHR ''~'' \<or> ch = TAB \<or> ch = CHR ''|'' \<or>
     ch = CHR ''&'' \<or> ch = CHR '';'' \<or> ch = CHR ''('' \<or> ch = CHR '')'' \<or>
     ch = CHR ''<'' \<or> ch = CHR ''>''"

text \<open>
  One turn of the \<^verbatim>\<open>switch\<close> of \<^verbatim>\<open>_escape_ansic\<close>: the characters written for
  the source character \<open>p\<close>. In the default branch the character is promoted to
  \<^verbatim>\<open>int\<close> before it is compared and shifted.
\<close>

definition octal_digit :: "int \<Rightarrow> char" where
  "octal_digit d = char_of (48 + d)"

definition escape_ansic_char :: "bool \<Rightarrow> char \<Rightarrow> string" where
  "escape_ansic_char sg p =
     (if p = CHR 0x08 then [BSL, CHR ''b'']
      else if p = CHR 0x0C then [BSL, CHR ''f'']
      else if p = LF then [BSL, CHR ''n'']
      else if p = CHR 0x0D then [BSL, CHR ''r'']
      else if p = TAB then [BSL, CHR ''t'']
      else if p = CHR 0x0B then [BSL, CHR ''v'']
      else if p = BSL \<or> p = DQ \<or> p = SQ then [BSL, p]
      else if char_val sg p < 32 \<or> 127 \<le> char_val sg p then
        [BSL,
         octal_digit (drop_bit 6 (char_val sg p) AND 7),
         octal_digit (drop_bit 3 (char_val sg p) AND 7),
         octal_digit (char_val sg p AND 7)]
      else [p])"

definition escape_ansic :: "bool \<Rightarrow> string \<Rightarrow> string" where
  "escape_ansic sg source =
     [CHR ''$'', SQ] @ concat (map (escape_ansic_char sg) source) @ [SQ]"

text \<open>
  The first loop of \<^verbatim>\<open>svEscape\<close> counts the characters to escape and notes whether
  quotes are needed; \<open>None\<close> is its early return through \<^verbatim>\<open>_escape_ansic\<close>.
\<close>

fun svEscape_scan :: "bool \<Rightarrow> string \<Rightarrow> nat \<Rightarrow> bool \<Rightarrow> (nat \<times> bool) option" where
  "svEscape_scan sg [] mangle requires_quotes = Some (mangle, requires_quotes)"
| "svEscape_scan sg (c # cs) mangle requires_quotes =
     (if char_req_escape c then svEscape_scan sg cs (mangle + 1) requires_quotes
      else if char_req_quotes c then svEscape_scan sg cs mangle True
      else if char_val sg c < 32 then None
      else svEscape_scan sg cs mangle requires_quotes)"

text \<open>The second loop: a backslash before every character that requires one.\<close>

fun svEscape_copy :: "string \<Rightarrow> string" where
  "svEscape_copy [] = []"
| "svEscape_copy (c # cs) =
     (if char_req_escape c then [BSL, c] else [c]) @ svEscape_copy cs"

definition svEscape :: "bool \<Rightarrow> string \<Rightarrow> string" where
  "svEscape sg s =
     (case svEscape_scan sg s 0 False of
        None \<Rightarrow> escape_ansic sg s
      | Some (mangle, requires_quotes) \<Rightarrow>
          if mangle = 0 \<and> \<not> requires_quotes then s
          else [DQ] @ svEscape_copy s @ [DQ])"

subsection \<open>Decoding: \<^verbatim>\<open>svUnescape\<close>\<close>

text \<open>
  \<^verbatim>\<open>_looks_like_old_svescaped\<close>: the loop over \<open>k\<close>, started behind the opening
  double quote.
\<close>

fun looks_like_old_loop :: "string \<Rightarrow> bool" where
  "looks_like_old_loop [] = False"
| "looks_like_old_loop (c # cs) =
     (if \<not> char_req_escape_old c then looks_like_old_loop cs
      else if c = DQ then cs = []
      else if c = BSL then
        (case cs of
           [] \<Rightarrow> False
         | d # ds \<Rightarrow> if \<not> char_req_escape_old d then False else looks_like_old_loop ds)
      else False)"

definition looks_like_old_svescaped :: "string \<Rightarrow> bool" where
  "looks_like_old_svescaped v =
     (case v of [] \<Rightarrow> False | c # cs \<Rightarrow> if c \<noteq> DQ then False else looks_like_old_loop cs)"

definition ch_octal_is :: "char \<Rightarrow> bool" where
  "ch_octal_is ch \<longleftrightarrow> (48::nat) \<le> of_char ch \<and> of_char ch < (56::nat)"

definition ch_octal_get :: "char \<Rightarrow> nat" where
  "ch_octal_get ch = of_char ch - 48"

definition ch_hex_is :: "char \<Rightarrow> bool" where
  "ch_hex_is ch = g_ascii_isxdigit ch"

definition ch_hex_get :: "char \<Rightarrow> nat" where
  "ch_hex_get ch =
     (if of_char ch \<le> (57::nat) then of_char ch - 48
      else unat ((of_char ch :: 8 word) AND 0x4F) - 65 + 10)"

text \<open>
  \<^verbatim>\<open>_gstr_init\<close>: the buffer after the call. A buffer that did not exist yet starts
  with the first \<open>i\<close> characters of the value.
\<close>

definition gstr_init :: "string option \<Rightarrow> string \<Rightarrow> nat \<Rightarrow> string" where
  "gstr_init str v i = (case str of None \<Rightarrow> take i v | Some s \<Rightarrow> s)"

text \<open>
  The trailing rule: behind a blank or a semicolon only blanks, at most one semicolon in
  all, and then the end or a comment may follow. \<open>skip_trailing\<close> is the loop over
  \<open>j\<close>, and returns what is left at \<open>j\<close>.
\<close>

fun skip_trailing :: "bool \<Rightarrow> string \<Rightarrow> string" where
  "skip_trailing has_semicolon [] = []"
| "skip_trailing has_semicolon (c # cs) =
     (if g_ascii_isspace c then skip_trailing has_semicolon cs
      else if \<not> has_semicolon \<and> c = CHR '';'' then skip_trailing True cs
      else c # cs)"

definition trailing_ok :: "bool \<Rightarrow> string \<Rightarrow> bool" where
  "trailing_ok has_semicolon cs =
     (case skip_trailing has_semicolon cs of [] \<Rightarrow> True | c # _ \<Rightarrow> c = CHR ''#'')"

text \<open>
  The label \<^verbatim>\<open>out_value\<close>. The buffer is handed out as a C string, which ends at its
  first NUL byte (an escape such as \<^verbatim>\<open>\000\<close> can put one there).
\<close>

definition c_str :: "string \<Rightarrow> string" where
  "c_str s = takeWhile (\<lambda>c. c \<noteq> NUL) s"

definition out_value :: "string \<Rightarrow> nat \<Rightarrow> string option \<Rightarrow> string" where
  "out_value v i str =
     (if i = 0 then []
      else case str of
             Some s \<Rightarrow> if s = [] \<or> hd s = NUL then [] else c_str s
           | None \<Rightarrow> take i v)"

text \<open>The escape letters of ANSI-C quoting that stand for one fixed character.\<close>

definition ansic_letter :: "char \<Rightarrow> char option" where
  "ansic_letter e =
     (if e = CHR ''a'' then Some (CHR 0x07)
      else if e = CHR ''b'' then Some (CHR 0x08)
      else if e = CHR ''e'' then Some (CHR 0x1B)
      else if e = CHR ''E'' then Some (CHR 0x1B)
      else if e = CHR ''f'' then Some (CHR 0x0C)
      else if e = CHR ''n'' then Some LF
      else if e = CHR ''r'' then Some (CHR 0x0D)
      else if e = CHR ''t'' then Some TAB
      else if e = CHR ''v'' then Some (CHR 0x0B)
      else if e = CHR ''?'' then Some (CHR ''?'')
      else if e = DQ then Some DQ
      else if e = BSL then Some BSL
      else if e = SQ then Some SQ
      else None)"

text \<open>
  Up to \<open>n\<close> further octal or hexadecimal digits: the number read and how many
  characters it took.
\<close>

fun octal_more :: "nat \<Rightarrow> nat \<Rightarrow> string \<Rightarrow> nat \<times> nat" where
  "octal_more 0 v cs = (v, 0)"
| "octal_more (Suc n) v [] = (v, 0)"
| "octal_more (Suc n) v (c # cs) =
     (if ch_octal_is c
      then (case octal_more n (v * 8 + ch_octal_get c) cs of (w, k) \<Rightarrow> (w, Suc k))
      else (v, 0))"

fun hex_more :: "nat \<Rightarrow> nat \<Rightarrow> string \<Rightarrow> nat \<times> nat" where
  "hex_more 0 v cs = (v, 0)"
| "hex_more (Suc n) v [] = (v, 0)"
| "hex_more (Suc n) v (c # cs) =
     (if ch_hex_is c
      then (case hex_more n (v * 16 + ch_hex_get c) cs of (w, k) \<Rightarrow> (w, Suc k))
      else (v, 0))"

text \<open>
  \<^verbatim>\<open>g_string_append_unichar\<close> is GLib's; it appends the UTF-8 form of the code point,
  in GLib's extended scheme of up to six bytes.
\<close>

fun utf8_tail :: "nat \<Rightarrow> nat \<Rightarrow> string" where
  "utf8_tail 0 wc = []"
| "utf8_tail (Suc n) wc = utf8_tail n (wc div 64) @ [char_of (wc mod 64 + 128)]"

definition unichar_to_utf8 :: "nat \<Rightarrow> string" where
  "unichar_to_utf8 wc =
     (if wc < 0x80 then [char_of wc]
      else if wc < 0x800 then char_of (wc div 64 + 0xC0) # utf8_tail 1 wc
      else if wc < 0x10000 then char_of (wc div 4096 + 0xE0) # utf8_tail 2 wc
      else if wc < 0x200000 then char_of (wc div 262144 + 0xF0) # utf8_tail 3 wc
      else if wc < 0x4000000 then char_of (wc div 16777216 + 0xF8) # utf8_tail 4 wc
      else char_of (wc div 1073741824 + 0xFC) # utf8_tail 5 wc)"

text \<open>
  A backslash inside double quotes, followed by the character \<open>e\<close>: what goes into
  the buffer. The test of \<^verbatim>\<open>_looks_like_old_svescaped\<close> is cached in the C code;
  it depends on the value alone.
\<close>

definition dquote_escape :: "string \<Rightarrow> char \<Rightarrow> string" where
  "dquote_escape v e =
     (if e = CHR ''$'' \<or> e = CHR 0x60 \<or> e = DQ \<or> e = BSL then [e]
      else if e = SQ \<or> e = CHR ''~'' then
        (if looks_like_old_svescaped v then [e] else [BSL, e])
      else [BSL, e])"

text \<open>
  A backslash inside \<^verbatim>\<open>$'...'\<close>, followed by the character \<open>e\<close> and then by
  \<open>cs\<close>: what goes into the buffer, and how many characters of \<open>cs\<close> the escape
  takes.
\<close>

definition ansic_escape :: "char \<Rightarrow> string \<Rightarrow> string \<times> nat" where
  "ansic_escape e cs =
     (case ansic_letter e of
        Some ch \<Rightarrow> ([ch], 0)
      | None \<Rightarrow>
          if ch_octal_is e then
            (case octal_more 2 (ch_octal_get e) cs of (w, k) \<Rightarrow> ([char_of w], k))
          else if e = CHR ''x'' \<or> e = CHR ''u'' \<or> e = CHR ''U'' then
            (case cs of
               [] \<Rightarrow> ([BSL, e], 0)
             | h # hs \<Rightarrow>
                 if \<not> ch_hex_is h then ([BSL, e], 0)
                 else
                   (case hex_more
                           (if e = CHR ''x'' then 1 else if e = CHR ''u'' then 3 else 7)
                           (ch_hex_get h) hs of
                      (w, k) \<Rightarrow>
                        (if e = CHR ''x'' then [char_of w] else unichar_to_utf8 w, Suc k)))
          else ([BSL, e], 0))"

text \<open>
  The loops of \<^verbatim>\<open>svUnescape\<close>. \<open>v\<close> is the whole value, \<open>i\<close> the index, the third
  argument the rest of the value from \<open>i\<close> on, and the last argument the buffer
  \<^verbatim>\<open>str\<close>. \<open>None\<close> is the label \<^verbatim>\<open>out_error\<close>.
\<close>

function (sequential) svUnescape_loop1 :: "string \<Rightarrow> nat \<Rightarrow> string \<Rightarrow> string option \<Rightarrow> string option"
  and svUnescape_squote :: "string \<Rightarrow> nat \<Rightarrow> string \<Rightarrow> string \<Rightarrow> string option"
  and svUnescape_dquote :: "string \<Rightarrow> nat \<Rightarrow> string \<Rightarrow> string \<Rightarrow> string option"
  and svUnescape_ansic :: "string \<Rightarrow> nat \<Rightarrow> string \<Rightarrow> string \<Rightarrow> string option"
where
  "svUnescape_loop1 v i [] str = Some (out_value v i str)"
| "svUnescape_loop1 v i (c # cs) str =
     (if g_ascii_isspace c \<or> c = CHR '';'' then
        (if trailing_ok (c = CHR '';'') cs then Some (out_value v i str) else None)
      else if c = BSL then
        (case cs of
           [] \<Rightarrow> None
         | d # cs' \<Rightarrow> svUnescape_loop1 v (i + 2) cs' (Some (gstr_init str v i @ [d])))
      else if c = SQ then svUnescape_squote v (i + 1) cs (gstr_init str v i)
      else if c = DQ then svUnescape_dquote v (i + 1) cs (gstr_init str v i)
      else if c = CHR ''$'' \<and> take 1 cs = [SQ] then
        svUnescape_ansic v (i + 2) (drop 1 cs) (gstr_init str v i)
      else if c = CHR ''|'' \<or> c = CHR ''&'' \<or> c = CHR ''('' \<or> c = CHR '')'' \<or>
              c = CHR ''<'' \<or> c = CHR ''>'' then None
      else svUnescape_loop1 v (i + 1) cs (map_option (\<lambda>s. s @ [c]) str))"
| "svUnescape_squote v i [] s = None"
| "svUnescape_squote v i (c # cs) s =
     (if c = SQ then svUnescape_loop1 v (i + 1) cs (Some s)
      else svUnescape_squote v (i + 1) cs (s @ [c]))"
| "svUnescape_dquote v i [] s = None"
| "svUnescape_dquote v i (c # cs) s =
     (if c = DQ then svUnescape_loop1 v (i + 1) cs (Some s)
      else if c = CHR 0x60 \<or> c = CHR ''$'' then None
      else if c = BSL then
        (case cs of
           [] \<Rightarrow> None
         | e # cs' \<Rightarrow> svUnescape_dquote v (i + 2) cs' (s @ dquote_escape v e))
      else svUnescape_dquote v (i + 1) cs (s @ [c]))"
| "svUnescape_ansic v i [] s = None"
| "svUnescape_ansic v i (c # cs) s =
     (if c = SQ then svUnescape_loop1 v (i + 1) cs (Some s)
      else if c = BSL then
        (case cs of
           [] \<Rightarrow> None
         | e # cs' \<Rightarrow>
             (case ansic_escape e cs' of
                (bytes, k) \<Rightarrow> svUnescape_ansic v (i + 2 + k) (drop k cs') (s @ bytes)))
      else svUnescape_ansic v (i + 1) cs (s @ [c]))"
  by pat_completeness auto

text \<open>Every call goes on with a shorter rest of the value.\<close>

termination
  by (relation
       "measure (case_sum
          (case_sum (\<lambda>(v, i, cs, s). length cs) (\<lambda>(v, i, cs, s). length cs))
          (case_sum (\<lambda>(v, i, cs, s). length cs) (\<lambda>(v, i, cs, s). length cs)))")
     auto

definition svUnescape :: "string \<Rightarrow> string option" where
  "svUnescape v = svUnescape_loop1 v 0 v None"


text \<open>
  The characters that make the first loop of \<^verbatim>\<open>svEscape\<close> leave through
  \<^verbatim>\<open>_escape_ansic\<close>: those that fall through to its third test and compare below
  the space character.
\<close>

definition forces_ansic :: "bool \<Rightarrow> char \<Rightarrow> bool" where
  "forces_ansic sg c \<longleftrightarrow>
     \<not> char_req_escape c \<and> \<not> char_req_quotes c \<and> char_val sg c < 32"

subsection \<open>Lines\<close>

text \<open>
  \<^verbatim>\<open>shvarLine\<close> has three fields and, as the comment in the struct says, three
  cases, told apart by which pointers are \<^verbatim>\<open>NULL\<close> (\<^verbatim>\<open>ASSERT_shvarLine\<close> checks
  it): \<open>Raw line\<close> has no key and holds the entire original line;
  \<open>Assignment key_with_prefix key line\<close> holds the key with its white-space prefix,
  the key, and the part behind \<^verbatim>\<open>=\<close>, which is \<open>None\<close> once the value was deleted.
\<close>

datatype shvarLine =
    Raw string
  | Assignment string string "string option"

fun line_key :: "shvarLine \<Rightarrow> string option" where
  "line_key (Raw t) = None"
| "line_key (Assignment kp k t) = Some k"

record shvarFile =
  fileName :: string
  fd :: int
  lineList :: "shvarLine list"
  modified :: bool

definition svFile_new :: "string \<Rightarrow> shvarFile" where
  "svFile_new name = \<lparr>fileName = name, fd = - 1, lineList = [], modified = False\<rparr>"

definition svFileSetModified :: "shvarFile \<Rightarrow> shvarFile" where
  "svFileSetModified s = s\<lparr>modified := True\<rparr>"

definition nm_str_skip_leading_spaces :: "string \<Rightarrow> string" where
  "nm_str_skip_leading_spaces str = dropWhile g_ascii_isspace str"

text \<open>
  \<^verbatim>\<open>line_new_parse\<close>: the loop over \<open>e\<close>, which looks for \<^verbatim>\<open>=\<close> behind a name
  that starts at \<open>k\<close>, and the loop over \<open>k\<close>, which skips white space. \<open>None\<close>
  is the \<^verbatim>\<open>break\<close> to the raw line.
\<close>

fun line_parse_name :: "string \<Rightarrow> nat \<Rightarrow> nat \<Rightarrow> string \<Rightarrow> shvarLine option" where
  "line_parse_name v k e [] = None"
| "line_parse_name v k e (c # cs) =
     (if c = CHR ''='' then Some (Assignment (take e v) (drop k (take e v)) (Some cs))
      else if \<not> g_ascii_isalnum c \<and> c \<noteq> CHR ''_'' then None
      else line_parse_name v k (e + 1) cs)"

fun line_parse_from :: "string \<Rightarrow> nat \<Rightarrow> string \<Rightarrow> shvarLine option" where
  "line_parse_from v k [] = None"
| "line_parse_from v k (c # cs) =
     (if g_ascii_isspace c then line_parse_from v (k + 1) cs
      else if g_ascii_isalpha c \<or> c = CHR ''_'' then line_parse_name v k (k + 1) cs
      else None)"

definition line_new_parse :: "string \<Rightarrow> shvarLine" where
  "line_new_parse v = (case line_parse_from v 0 v of Some l \<Rightarrow> l | None \<Rightarrow> Raw v)"

definition line_new_build :: "bool \<Rightarrow> string \<Rightarrow> string \<Rightarrow> shvarLine" where
  "line_new_build sg k v = Assignment k k (Some (svEscape sg v))"

text \<open>
  \<^verbatim>\<open>line_set\<close> returns whether the line changed, and the line. \<^verbatim>\<open>key\<close> points into
  \<^verbatim>\<open>key_with_prefix\<close>, so the two pointers differ exactly when the strings do. The
  function asserts that the line has a key and is only called on such lines.
\<close>

fun line_set :: "bool \<Rightarrow> shvarLine \<Rightarrow> string \<Rightarrow> bool \<times> shvarLine" where
  "line_set sg (Assignment kp k t) v =
     (let changed = (k \<noteq> kp) in
      if t = Some (svEscape sg v) then (changed, Assignment k k t)
      else (True, Assignment k k (Some (svEscape sg v))))"
| "line_set sg (Raw t) v = (False, Raw t)"

subsection \<open>The list of lines\<close>

text \<open>
  A node of the \<^verbatim>\<open>GList\<close> is its \<^verbatim>\<open>data\<close> and the list that starts at its
  \<^verbatim>\<open>next\<close>. The position of a node in the list it belongs to follows from the length
  of what comes behind it, and deleting an earlier node does not change that.
\<close>

type_synonym node = "shvarLine \<times> shvarLine list"

fun shlist_find :: "shvarLine list \<Rightarrow> string \<Rightarrow> node option" where
  "shlist_find [] k = None"
| "shlist_find (l # rest) k =
     (if line_key l = Some k then Some (l, rest) else shlist_find rest k)"

definition node_pos :: "shvarLine list \<Rightarrow> node \<Rightarrow> nat" where
  "node_pos lines n = length lines - Suc (length (snd n))"

definition g_list_delete_link :: "shvarLine list \<Rightarrow> node \<Rightarrow> shvarLine list" where
  "g_list_delete_link lines n = take (node_pos lines n) lines @ drop (Suc (node_pos lines n)) lines"

lemma shlist_find_shorter:
  "shlist_find current k = Some (l, rest) \<Longrightarrow> length rest < length current"
  by (induction current) (auto split: if_splits)

subsection \<open>Reading a value\<close>

text \<open>The loop of \<^verbatim>\<open>_svGetValue\<close>: \<open>last_node\<close> ends as the last line with the key.\<close>

function svGetValue_loop :: "string \<Rightarrow> shvarLine list \<Rightarrow> node option \<Rightarrow> node option" where
  "svGetValue_loop k current last_node =
     (case shlist_find current k of
        None \<Rightarrow> last_node
      | Some (l, rest) \<Rightarrow> svGetValue_loop k rest (Some (l, rest)))"
  by pat_completeness auto

termination svGetValue_loop
  by (relation "measure (\<lambda>(k, current, last_node). length current)")
     (auto simp: shlist_find_shorter)

declare svGetValue_loop.simps [simp del]

text \<open>
  \<^verbatim>\<open>_svGetValue\<close>. \<open>None\<close> is \<^verbatim>\<open>NULL\<close>: no line has the key, the line has no value
  any more, or \<^verbatim>\<open>svUnescape\<close> failed.
\<close>

definition svGetValue_internal :: "shvarFile \<Rightarrow> string \<Rightarrow> string option" where
  "svGetValue_internal s k =
     (case svGetValue_loop k (lineList s) None of
        None \<Rightarrow> None
      | Some (Raw t, rest) \<Rightarrow> None
      | Some (Assignment kp k' None, rest) \<Rightarrow> None
      | Some (Assignment kp k' (Some t), rest) \<Rightarrow> svUnescape t)"

definition svGetValueString :: "shvarFile \<Rightarrow> string \<Rightarrow> string option" where
  "svGetValueString s k =
     (case svGetValue_internal s k of
        None \<Rightarrow> None
      | Some v \<Rightarrow> if v = [] then None else Some v)"

subsection \<open>Writing a value\<close>

text \<open>
  The loop of \<^verbatim>\<open>svSetValue\<close>: every line with the key but the last one found is
  deleted. It returns the list, the flag \<^verbatim>\<open>modified\<close> and the node \<^verbatim>\<open>last\<close>.
\<close>

function svSetValue_loop ::
  "string \<Rightarrow> shvarLine list \<Rightarrow> bool \<Rightarrow> shvarLine list \<Rightarrow> node option \<Rightarrow>
   shvarLine list \<times> bool \<times> node option" where
  "svSetValue_loop k lines m current last_node =
     (case shlist_find current k of
        None \<Rightarrow> (lines, m, last_node)
      | Some (l, rest) \<Rightarrow>
          (case last_node of
             Some la \<Rightarrow> svSetValue_loop k (g_list_delete_link lines la) True rest (Some (l, rest))
           | None \<Rightarrow> svSetValue_loop k lines m rest (Some (l, rest))))"
  by pat_completeness auto

termination svSetValue_loop
  by (relation "measure (\<lambda>(k, lines, m, current, last_node). length current)")
     (auto simp: shlist_find_shorter)

declare svSetValue_loop.simps [simp del]

text \<open>
  \<^verbatim>\<open>svSetValue\<close>; \<open>v = None\<close> is a \<^verbatim>\<open>NULL\<close> value. \<^verbatim>\<open>nm_clear_g_free\<close> says
  whether there was a value to free.
\<close>

definition clear_line :: "shvarLine \<Rightarrow> bool \<times> shvarLine" where
  "clear_line l =
     (case l of
        Assignment kp k t \<Rightarrow> (t \<noteq> None, Assignment kp k None)
      | Raw t \<Rightarrow> (False, Raw t))"

definition svSetValue :: "bool \<Rightarrow> shvarFile \<Rightarrow> string \<Rightarrow> string option \<Rightarrow> shvarFile" where
  "svSetValue sg s k v =
     (case svSetValue_loop k (lineList s) (modified s) (lineList s) None of
        (lines, m, last_node) \<Rightarrow>
          (case v of
             None \<Rightarrow>
               (case last_node of
                  None \<Rightarrow> s\<lparr>lineList := lines, modified := m\<rparr>
                | Some la \<Rightarrow>
                    (case clear_line (fst la) of
                       (cleared, l') \<Rightarrow>
                         s\<lparr>lineList := lines[node_pos lines la := l'],
                           modified := (m \<or> cleared)\<rparr>))
           | Some val \<Rightarrow>
               (case last_node of
                  None \<Rightarrow> s\<lparr>lineList := lines @ [line_new_build sg k val], modified := True\<rparr>
                | Some la \<Rightarrow>
                    (case line_set sg (fst la) val of
                       (changed, l') \<Rightarrow>
                         s\<lparr>lineList := lines[node_pos lines la := l'],
                           modified := (m \<or> changed)\<rparr>))))"

definition svSetValueString :: "bool \<Rightarrow> shvarFile \<Rightarrow> string \<Rightarrow> string option \<Rightarrow> shvarFile" where
  "svSetValueString sg s k v =
     svSetValue sg s k (case v of None \<Rightarrow> None | Some t \<Rightarrow> if t \<noteq> [] then Some t else None)"

definition svSetValueBoolean :: "bool \<Rightarrow> shvarFile \<Rightarrow> string \<Rightarrow> bool \<Rightarrow> shvarFile" where
  "svSetValueBoolean sg s k b = svSetValue sg s k (Some (if b then ''yes'' else ''no''))"

definition svUnsetValue :: "bool \<Rightarrow> shvarFile \<Rightarrow> string \<Rightarrow> shvarFile" where
  "svUnsetValue sg s k = svSetValue sg s k None"


subsection \<open>The file\<close>

text \<open>
  What the system calls see and do: the bytes of the file called \<^verbatim>\<open>fileName\<close>
  (\<open>None\<close> when there is no such file), whether it may be opened for reading and
  for writing, whether \<^verbatim>\<open>ftruncate\<close> and \<^verbatim>\<open>dup\<close> succeed, and the descriptor
  that the next \<^verbatim>\<open>open\<close> returns.
\<close>

record world =
  disk :: "string option"
  may_read :: bool
  may_write :: bool
  ftruncate_ok :: bool
  dup_ok :: bool
  next_fd :: nat

datatype sv_error = OpenFailed | ReadFailed | TruncateFailed | DupFailed

definition open_rdwr :: "world \<Rightarrow> int" where
  "open_rdwr w = (if disk w \<noteq> None \<and> may_read w \<and> may_write w then int (next_fd w) else - 1)"

definition open_rdonly :: "world \<Rightarrow> int" where
  "open_rdonly w = (if disk w \<noteq> None \<and> may_read w then int (next_fd w) else - 1)"

text \<open>\<^verbatim>\<open>open (name, O_WRONLY | O_CREAT, mode)\<close>: the descriptor, and the file made.\<close>

definition open_wronly_creat :: "world \<Rightarrow> int \<Rightarrow> int \<times> world" where
  "open_wronly_creat w mode =
     (if may_write w
      then (int (next_fd w), (if disk w = None then w\<lparr>disk := Some []\<rparr> else w))
      else (- 1, w))"

text \<open>
  Modelled from the spec: \<^verbatim>\<open>nm_utils_fd_get_contents\<close> is not among the sources; it
  reads the file up to a cap of 10 MiB, and a larger file is an error. Its result is
  used as a C string, which ends at the first NUL byte.
\<close>

definition nm_utils_fd_get_contents :: "string \<Rightarrow> nat \<Rightarrow> string option" where
  "nm_utils_fd_get_contents bytes max_length =
     (if length bytes \<le> max_length then Some (c_str bytes) else None)"

text \<open>
  The loop over the lines of the arena: \<^verbatim>\<open>strchr (p, '\n')\<close> finds the end of a line,
  and what is left behind the last newline is a line when it is not empty.
\<close>

function parse_arena :: "string \<Rightarrow> shvarLine list" where
  "parse_arena p =
     (if LF \<in> set p
      then line_new_parse (takeWhile (\<lambda>c. c \<noteq> LF) p) #
           parse_arena (drop 1 (dropWhile (\<lambda>c. c \<noteq> LF) p))
      else if p \<noteq> [] then [line_new_parse p] else [])"
  by pat_completeness auto

lemma strchr_shorter:
  "LF \<in> set p \<Longrightarrow> length (drop 1 (dropWhile (\<lambda>c. c \<noteq> LF) p)) < length p"
proof -
  assume "LF \<in> set p"
  then have "dropWhile (\<lambda>c. c \<noteq> LF) p \<noteq> []" by (simp add: dropWhile_eq_Nil_conv)
  then have "length (drop 1 (dropWhile (\<lambda>c. c \<noteq> LF) p)) < length (dropWhile (\<lambda>c. c \<noteq> LF) p)"
    by simp
  also have "\<dots> \<le> length p" by (rule length_dropWhile_le)
  finally show ?thesis .
qed

termination parse_arena
proof (relation "measure length")
  show "wf (measure length)" by simp
next
  fix p :: string
  assume "LF \<in> set p"
  then show "(drop 1 (dropWhile (\<lambda>c. c \<noteq> LF) p), p) \<in> measure length"
    using strchr_shorter [of p] by simp
qed

declare parse_arena.simps [simp del]

text \<open>
  \<^verbatim>\<open>svOpenFileInternal\<close>. The file is opened for reading and writing when \<open>create\<close>
  is set, for reading otherwise or when that failed; a descriptor opened for reading only
  is closed again and not kept.
\<close>

definition svOpenFileInternal :: "string \<Rightarrow> bool \<Rightarrow> world \<Rightarrow> sv_error + shvarFile" where
  "svOpenFileInternal name create w =
     (let fd1 = (if create then open_rdwr w else - 1);
          closefd = (fd1 < 0 \<and> 0 \<le> open_rdonly w);
          fd2 = (if fd1 < 0 then open_rdonly w else fd1)
      in if fd2 < 0 then (if create then Inr (svFile_new name) else Inl OpenFailed)
         else
           (case nm_utils_fd_get_contents (case disk w of Some b \<Rightarrow> b | None \<Rightarrow> [])
                   (10 * 1024 * 1024) of
              None \<Rightarrow> Inl ReadFailed
            | Some arena \<Rightarrow>
                Inr ((svFile_new name)\<lparr>lineList := parse_arena arena,
                                       fd := (if closefd then - 1 else fd2)\<rparr>)))"

definition svOpenFile :: "string \<Rightarrow> world \<Rightarrow> sv_error + shvarFile" where
  "svOpenFile name w = svOpenFileInternal name False w"

definition svCreateFile :: "string \<Rightarrow> world \<Rightarrow> sv_error + shvarFile" where
  "svCreateFile name w = svOpenFileInternal name True w"

text \<open>
  The body of the loop of \<^verbatim>\<open>svWriteFile\<close>: what the calls of \<^verbatim>\<open>fprintf\<close> print
  for one line.
\<close>

fun svWriteFile_line :: "shvarLine \<Rightarrow> string" where
  "svWriteFile_line (Raw t) =
     (case nm_str_skip_leading_spaces t of
        [] \<Rightarrow> t @ [LF]
      | c # _ \<Rightarrow> if c = CHR ''#'' then t @ [LF] else ''#NM: '' @ t @ [LF])"
| "svWriteFile_line (Assignment kp k None) = []"
| "svWriteFile_line (Assignment kp k (Some t)) =
     (if svUnescape t \<noteq> None then kp @ ''='' @ t @ [LF]
      else k @ ''='' @ [LF] @ ''#NM: '' @ kp @ ''='' @ t @ [LF])"

definition svWriteFile_lines :: "shvarLine list \<Rightarrow> string" where
  "svWriteFile_lines lines = concat (map svWriteFile_line lines)"

text \<open>
  \<^verbatim>\<open>svWriteFile\<close> returns the error (\<open>None\<close> is \<^verbatim>\<open>TRUE\<close>), the file structure and
  the world. Nothing happens unless the structure is modified. The file is truncated
  first and written from its start.
\<close>

definition svWriteFile :: "shvarFile \<Rightarrow> int \<Rightarrow> world \<Rightarrow> sv_error option \<times> shvarFile \<times> world" where
  "svWriteFile s mode w =
     (if modified s then
        (case (if fd s = - 1 then open_wronly_creat w mode else (fd s, w)) of
           (fd1, w1) \<Rightarrow>
             (let s1 = s\<lparr>fd := fd1\<rparr> in
              if fd1 = - 1 then (Some OpenFailed, s1, w1)
              else if \<not> ftruncate_ok w1 then (Some TruncateFailed, s1, w1)
              else if \<not> dup_ok w1 then (Some DupFailed, s1, w1\<lparr>disk := Some []\<rparr>)
              else (None, s1, w1\<lparr>disk := Some (svWriteFile_lines (lineList s1))\<rparr>)))
      else (None, s, w))"


subsection \<open>Notions used to state the properties\<close>

text \<open>A line has the key \<open>k\<close>: it is an assignment to \<open>k\<close>, matched exactly.\<close>

abbreviation has_key :: "string \<Rightarrow> shvarLine \<Rightarrow> bool" where
  "has_key k l \<equiv> line_key l = Some k"

definition without_key :: "string \<Rightarrow> shvarLine list \<Rightarrow> shvarLine list" where
  "without_key k lines = filter (\<lambda>l. \<not> has_key k l) lines"

text \<open>
  In the words of the specification: the last assignment, in document order, whose key
  matches; and the stored, still encoded value of a line.
\<close>

definition last_with_key :: "string \<Rightarrow> shvarLine list \<Rightarrow> shvarLine option" where
  "last_with_key k lines =
     (if filter (has_key k) lines = [] then None else Some (last (filter (has_key k) lines)))"

definition line_value :: "shvarLine \<Rightarrow> string option" where
  "line_value l = (case l of Raw t \<Rightarrow> None | Assignment kp k t \<Rightarrow> t)"

text \<open>The first character of a text that is not white space, if there is one.\<close>

definition first_non_space :: "string \<Rightarrow> char option" where
  "first_non_space t = List.find (\<lambda>c. \<not> g_ascii_isspace c) t"

text \<open>
  A line as \<^verbatim>\<open>ASSERT_shvarLine\<close> wants it, and on one physical line: the key is a
  shell name and is the key with prefix behind its leading white space, and no text holds
  a newline. A raw line only has to be on one physical line here.
\<close>

definition line_ok :: "shvarLine \<Rightarrow> bool" where
  "line_ok l =
     (case l of
        Raw t \<Rightarrow> LF \<notin> set t
      | Assignment kp k t \<Rightarrow>
          shell_is_name k \<and> nm_str_skip_leading_spaces kp = k \<and> LF \<notin> set kp \<and>
          (case t of None \<Rightarrow> True | Some e \<Rightarrow> LF \<notin> set e))"

text \<open>
  The lines of a text that assign to the key \<open>k\<close>, as \<^verbatim>\<open>svOpenFileInternal\<close> reads
  them; and what is read back from what \<^verbatim>\<open>svWriteFile\<close> writes for one line.
\<close>

definition key_lines :: "string \<Rightarrow> string \<Rightarrow> shvarLine list" where
  "key_lines k text = filter (has_key k) (parse_arena text)"

fun reread :: "shvarLine \<Rightarrow> shvarLine list" where
  "reread (Raw t) =
     (case first_non_space t of
        None \<Rightarrow> [Raw t]
      | Some c \<Rightarrow> if c = CHR ''#'' then [Raw t] else [Raw (''#NM: '' @ t)])"
| "reread (Assignment kp k None) = []"
| "reread (Assignment kp k (Some t)) =
     (if svUnescape t \<noteq> None then [Assignment kp k (Some t)]
      else [Assignment k k (Some []), Raw (''#NM: '' @ kp @ ''='' @ t)])"

text \<open>
  For the examples: a world where the file holds the given bytes and every call
  succeeds, and an unmodified file structure without a descriptor.
\<close>

definition world_with :: "string \<Rightarrow> world" where
  "world_with bytes =
     \<lparr>disk = Some bytes, may_read = True, may_write = True, ftruncate_ok = True,
      dup_ok = True, next_fd = 3\<rparr>"

definition doc :: "shvarLine list \<Rightarrow> shvarFile" where
  "doc lines = \<lparr>fileName = ''ifcfg-eth0'', fd = - 1, lineList = lines, modified = False\<rparr>"

section \<open>Encoding and decoding\<close>

subsection \<open>Octal escapes\<close>

lemma and_7_mod: "(y::int) AND 7 = y mod 8"
proof -
  have "y AND 7 = take_bit 3 y"
    by (simp only: take_bit_eq_mask mask_eq_exp_minus_1) simp
  then show ?thesis by (simp only: take_bit_eq_mod) simp
qed

lemma octal_split:
  fixes x :: int
  shows "((x div 64 mod 8) * 8 + (x div 8 mod 8)) * 8 + (x mod 8) = x mod 512"
proof -
  have a: "x mod (8 * 64) = 8 * (x div 8 mod 64) + x mod 8"
    by (rule zmod_zmult2_eq) simp
  have b: "(x div 8) mod (8 * 8) = 8 * (x div 8 div 8 mod 8) + x div 8 mod 8"
    by (rule zmod_zmult2_eq) simp
  have c: "x div 8 div 8 = x div 64"
    by (simp add: zdiv_zmult2_eq [symmetric])
  from a have a': "x mod 512 = 8 * (x div 8 mod 64) + x mod 8" by simp
  from b have b': "x div 8 mod 64 = 8 * (x div 8 div 8 mod 8) + x div 8 mod 8" by simp
  show ?thesis
    unfolding a' b' c by (simp only: algebra_simps)
qed

lemma char_of_char_val: "char_of (char_val sg c) = c"
proof -
  have "(char_of (of_char c - (256::int)) :: char) = char_of (of_char c :: int)"
    by (simp only: char_of_quasi_inj) simp
  then show ?thesis by (simp add: char_val_def)
qed

text \<open>An octal digit written by the encoder is read back as the same number.\<close>

lemma octal_digit_simps:
  "octal_digit 0 = CHR ''0''" "octal_digit 1 = CHR ''1''" "octal_digit 2 = CHR ''2''"
  "octal_digit 3 = CHR ''3''" "octal_digit 4 = CHR ''4''" "octal_digit 5 = CHR ''5''"
  "octal_digit 6 = CHR ''6''" "octal_digit 7 = CHR ''7''"
  by (simp_all add: octal_digit_def char_of_eq_iff)

lemma octal_digit_props:
  assumes "0 \<le> d" "d < 8"
  shows "ch_octal_is (octal_digit d) \<and> ch_octal_get (octal_digit d) = nat d \<and>
    ansic_letter (octal_digit d) = None"
proof -
  from assms have "d = 0 \<or> d = 1 \<or> d = 2 \<or> d = 3 \<or> d = 4 \<or> d = 5 \<or> d = 6 \<or> d = 7"
    by arith
  then show ?thesis
    by (elim disjE)
       (simp_all add: octal_digit_simps ch_octal_is_def ch_octal_get_def ansic_letter_def)
qed

lemma octal_escape_decodes:
  "ansic_escape (octal_digit (drop_bit 6 x AND 7))
     (octal_digit (drop_bit 3 x AND 7) # octal_digit (x AND 7) # rest) =
   ([char_of x], 2)"
proof -
  let ?a = "x div 64 mod 8" and ?b = "x div 8 mod 8" and ?c = "x mod 8"
  have r: "0 \<le> ?a" "?a < 8" "0 \<le> ?b" "?b < 8" "0 \<le> ?c" "?c < 8" by simp_all
  have "(nat ?a * 8 + nat ?b) * 8 + nat ?c = nat (((?a * 8) + ?b) * 8 + ?c)"
    using r by (simp add: nat_add_distrib nat_mult_distrib)
  also have "\<dots> = nat (x mod 512)" by (simp only: octal_split)
  finally have v: "(nat ?a * 8 + nat ?b) * 8 + nat ?c = nat (x mod 512)" .
  have "(char_of (nat (x mod 512)) :: char) = char_of (x mod 512)"
    using char_of_nat [of "nat (x mod 512)", where ?'a = int] by simp
  also have "\<dots> = char_of (take_bit 9 x)" by (simp add: take_bit_eq_mod)
  also have "\<dots> = char_of x" by (rule char_of_take_bit_eq) simp
  finally have c: "(char_of (nat (x mod 512)) :: char) = char_of x" .
  show ?thesis
    using octal_digit_props [OF r(1,2)] octal_digit_props [OF r(3,4)] octal_digit_props [OF r(5,6)] v c
    by (simp add: ansic_escape_def and_7_mod drop_bit_eq_div numeral_2_eq_2)
qed


lemma ansic_char_decodes:
  "svUnescape_ansic v i (escape_ansic_char sg p @ rest) s =
   svUnescape_ansic v (i + length (escape_ansic_char sg p)) rest (s @ [p])"
proof -
  consider (letter) "p = CHR 0x08 \<or> p = CHR 0x0C \<or> p = LF \<or> p = CHR 0x0D \<or> p = TAB \<or>
      p = CHR 0x0B \<or> p = BSL \<or> p = DQ \<or> p = SQ"
    | (octal) "\<not> (p = CHR 0x08 \<or> p = CHR 0x0C \<or> p = LF \<or> p = CHR 0x0D \<or> p = TAB \<or>
      p = CHR 0x0B \<or> p = BSL \<or> p = DQ \<or> p = SQ)"
      "char_val sg p < 32 \<or> 127 \<le> char_val sg p"
    | (plain) "\<not> (p = CHR 0x08 \<or> p = CHR 0x0C \<or> p = LF \<or> p = CHR 0x0D \<or> p = TAB \<or>
      p = CHR 0x0B \<or> p = BSL \<or> p = DQ \<or> p = SQ)"
      "\<not> (char_val sg p < 32 \<or> 127 \<le> char_val sg p)"
    by blast
  then show ?thesis
  proof cases
    case letter
    then show ?thesis
      by (elim disjE) (simp_all add: escape_ansic_char_def ansic_escape_def ansic_letter_def)
  next
    case octal
    then show ?thesis
      by (simp add: escape_ansic_char_def octal_escape_decodes char_of_char_val)
  next
    case plain
    then show ?thesis
      by (simp add: escape_ansic_char_def)
  qed
qed

lemma ansic_body_decodes:
  "svUnescape_ansic v i (concat (map (escape_ansic_char sg) src) @ rest) s =
   svUnescape_ansic v (i + length (concat (map (escape_ansic_char sg) src))) rest (s @ src)"
proof (induction src arbitrary: i s)
  case Nil
  then show ?case by simp
next
  case (Cons p ps)
  then show ?case
    by (simp add: ansic_char_decodes add.assoc)
qed

lemma dquote_body_decodes:
  "svUnescape_dquote v i (svEscape_copy src @ DQ # rest) s =
   svUnescape_loop1 v (i + length (svEscape_copy src) + 1) rest (Some (s @ src))"
proof (induction src arbitrary: i s)
  case Nil
  then show ?case by simp
next
  case (Cons c cs)
  show ?case
  proof (cases "char_req_escape c")
    case True
    then have "dquote_escape v c = [c]"
      by (auto simp: char_req_escape_def dquote_escape_def)
    with True Cons [of "i + 2" "s @ [c]"] show ?thesis
      by (simp add: char_req_escape_def)
  next
    case False
    with Cons [of "i + 1" "s @ [c]"] show ?thesis
      by (simp add: char_req_escape_def)
  qed
qed


text \<open>What the first loop of \<^verbatim>\<open>svEscape\<close> finds.\<close>

lemma svEscape_scan_eq:
  "svEscape_scan sg s m rq =
     (if \<exists>c\<in>set s. forces_ansic sg c then None
      else Some (m + length (filter char_req_escape s), rq \<or> (\<exists>c\<in>set s. char_req_quotes c)))"
proof (induction s arbitrary: m rq)
  case Nil
  then show ?case by simp
next
  case (Cons c cs)
  have disj: "char_req_escape c \<Longrightarrow> \<not> char_req_quotes c"
    by (auto simp: char_req_escape_def char_req_quotes_def)
  show ?case
    using disj by (auto simp: Cons forces_ansic_def)
qed

lemma isspace_low:
  assumes "g_ascii_isspace c"
  shows "char_req_quotes c \<or> char_val sg c < 32"
proof -
  from assms consider "c = CHR '' ''" | "c = TAB" | "c = LF" | "c = CHR 0x0C" | "c = CHR 0x0D"
    by (auto simp: g_ascii_isspace_def)
  then show ?thesis
    by cases (simp_all add: char_req_quotes_def char_val_def)
qed

lemma loop1_plain:
  assumes "\<forall>c\<in>set cs. \<not> char_req_escape c \<and> \<not> char_req_quotes c \<and> \<not> char_val sg c < 32"
  shows "svUnescape_loop1 v i cs None = Some (out_value v (i + length cs) None)"
  using assms
proof (induction cs arbitrary: i)
  case Nil
  then show ?case by simp
next
  case (Cons c cs)
  then have c: "\<not> char_req_escape c" "\<not> char_req_quotes c" "\<not> char_val sg c < 32"
    by simp_all
  from c isspace_low [of c sg] have sp: "\<not> g_ascii_isspace c" by blast
  from c have ne: "c \<noteq> CHR '';'' \<and> c \<noteq> BSL \<and> c \<noteq> SQ \<and> c \<noteq> DQ \<and> c \<noteq> CHR ''$'' \<and>
    c \<noteq> CHR ''|'' \<and> c \<noteq> CHR ''&'' \<and> c \<noteq> CHR ''('' \<and> c \<noteq> CHR '')'' \<and> c \<noteq> CHR ''<'' \<and>
    c \<noteq> CHR ''>''"
    by (simp add: char_req_escape_def char_req_quotes_def)
  from Cons have "svUnescape_loop1 v (i + 1) cs None = Some (out_value v (i + 1 + length cs) None)"
    by simp
  with sp ne show ?case by simp
qed

lemma out_value_buffer:
  "0 < i \<Longrightarrow> NUL \<notin> set s \<Longrightarrow> out_value v i (Some s) = s"
  by (cases s) (auto simp: out_value_def c_str_def takeWhile_eq_all_conv)

lemma svUnescape_svEscape:
  assumes "NUL \<notin> set s"
  shows "svUnescape (svEscape sg s) = Some s"
proof (cases "svEscape_scan sg s 0 False")
  case None
  then have e: "svEscape sg s = escape_ansic sg s" by (simp add: svEscape_def)
  have "svUnescape (escape_ansic sg s) =
        svUnescape_ansic (escape_ansic sg s) 2 (concat (map (escape_ansic_char sg) s) @ [SQ]) []"
    by (simp add: svUnescape_def escape_ansic_def gstr_init_def g_ascii_isspace_def numeral_2_eq_2)
  also have "\<dots> = Some (out_value (escape_ansic sg s)
                 (2 + length (concat (map (escape_ansic_char sg) s)) + 1) (Some s))"
    by (simp only: ansic_body_decodes) simp
  also have "\<dots> = Some s"
    using assms by (simp add: out_value_buffer)
  finally show ?thesis by (simp add: e)
next
  case (Some r)
  obtain mangle rq where r: "r = (mangle, rq)" by (cases r)
  show ?thesis
  proof (cases "mangle = 0 \<and> \<not> rq")
    case True
    with Some r have e: "svEscape sg s = s" by (simp add: svEscape_def)
    from Some r True have "\<forall>c\<in>set s. \<not> char_req_escape c \<and> \<not> char_req_quotes c \<and> \<not> char_val sg c < 32"
      by (auto simp: svEscape_scan_eq forces_ansic_def filter_empty_conv split: if_splits)
    then have "svUnescape s = Some (out_value s (length s) None)"
      using loop1_plain [of s sg s 0] by (simp add: svUnescape_def)
    then show ?thesis by (simp add: e out_value_def)
  next
    case False
    with Some r have e: "svEscape sg s = DQ # svEscape_copy s @ [DQ]" by (auto simp: svEscape_def)
    have "svUnescape (DQ # svEscape_copy s @ [DQ]) =
          svUnescape_dquote (DQ # svEscape_copy s @ [DQ]) 1 (svEscape_copy s @ [DQ]) []"
      by (simp add: svUnescape_def gstr_init_def g_ascii_isspace_def)
    also have "\<dots> = Some (out_value (DQ # svEscape_copy s @ [DQ])
                 (1 + length (svEscape_copy s) + 1) (Some s))"
      by (simp only: dquote_body_decodes) simp
    also have "\<dots> = Some s"
      using assms by (simp add: out_value_buffer)
    finally show ?thesis by (simp add: e)
  qed
qed

text \<open>
  C1. For every C string \<open>v\<close> without a newline, decoding the encoding of \<open>v\<close>
  succeeds and yields \<open>v\<close>, whether plain \<^verbatim>\<open>char\<close> is signed or not.
\<close>

theorem svUnescape_svEscape_roundtrip:
  assumes "NUL \<notin> set v" and "LF \<notin> set v"
  shows "svUnescape (svEscape sg v) = Some v"
  using assms(1) by (rule svUnescape_svEscape)

theorem svUnescape_svEscape_roundtrip_witness:
  "svUnescape (svEscape True (''a b'' @ [DQ, BSL, CHR 0x01, CHR 0xC3, CHR ''$''])) =
     Some (''a b'' @ [DQ, BSL, CHR 0x01, CHR 0xC3, CHR ''$''])"
  by (rule svUnescape_svEscape_roundtrip) simp_all


subsection \<open>The three forms of an encoded value\<close>

lemma req_char_range:
  assumes "char_req_escape c \<or> char_req_quotes c"
  shows "c = TAB \<or> ((32::nat) \<le> of_char c \<and> of_char c < (128::nat))"
  using assms unfolding char_req_escape_def char_req_quotes_def
  by (elim disjE) simp_all

lemma forces_ansic_iff:
  "forces_ansic sg c \<longleftrightarrow>
     c \<noteq> TAB \<and> (of_char c < (32::nat) \<or> (sg \<and> (128::nat) \<le> of_char c))"
proof -
  have v: "char_val sg c < 32 \<longleftrightarrow> of_char c < (32::nat) \<or> (sg \<and> (128::nat) \<le> of_char c)"
  proof -
    have i: "(of_char c :: int) = int (of_char c)" by (simp add: of_nat_of_char)
    have "of_char c < (256::nat)" by simp
    then show ?thesis unfolding char_val_def i by (auto simp del: nat_of_char_less_256)
  qed
  have t: "char_req_quotes TAB" by (simp add: char_req_quotes_def)
  show ?thesis
    unfolding forces_ansic_def v using req_char_range [of c] t by auto
qed

lemma svEscape_cases:
  "svEscape sg s =
     (if \<exists>c\<in>set s. forces_ansic sg c then escape_ansic sg s
      else if \<exists>c\<in>set s. char_req_escape c \<or> char_req_quotes c then [DQ] @ svEscape_copy s @ [DQ]
      else s)"
proof -
  have "length (filter char_req_escape s) = 0 \<longleftrightarrow> \<not> (\<exists>c\<in>set s. char_req_escape c)"
    by (simp add: filter_empty_conv)
  then show ?thesis
    by (auto simp: svEscape_def svEscape_scan_eq)
qed

text \<open>
  C2, as the code has it. \<^verbatim>\<open>svEscape\<close> chooses the form by content alone. The ANSI-C
  form \<^verbatim>\<open>$'...'\<close> is used exactly when the value holds a character that requires
  neither escaping nor quotes and compares below the space character: a control
  character other than the tab, and, where plain \<^verbatim>\<open>char\<close> is signed, a byte from 0x80
  on. Otherwise a value with a character that requires escaping or quotes is put in
  double quotes, with a backslash before each character that requires escaping, and
  any other value is returned as it is.
\<close>

theorem svEscape_tiers:
  "svEscape sg s =
     (if \<exists>c\<in>set s. forces_ansic sg c then escape_ansic sg s
      else if \<exists>c\<in>set s. char_req_escape c \<or> char_req_quotes c then [DQ] @ svEscape_copy s @ [DQ]
      else s) \<and>
   (\<forall>c. forces_ansic sg c \<longleftrightarrow>
      c \<noteq> TAB \<and> (of_char c < (32::nat) \<or> (sg \<and> (128::nat) \<le> of_char c)))"
  using svEscape_cases [of sg s] forces_ansic_iff [of sg] by blast

theorem svEscape_tiers_witness:
  "svEscape False (''a'' @ [CHR 0x01]) = escape_ansic False (''a'' @ [CHR 0x01]) \<and>
   svEscape False ''a b$'' = [DQ] @ ''a b'' @ [BSL] @ ''$'' @ [DQ] \<and>
   svEscape False [CHR ''a'', CHR 0xC3] = [CHR ''a'', CHR 0xC3] \<and>
   svEscape True [CHR ''a'', CHR 0xC3] = escape_ansic True [CHR ''a'', CHR 0xC3]"
  using svEscape_tiers [of False "''a'' @ [CHR 0x01]"] svEscape_tiers [of False "''a b$''"]
    svEscape_tiers [of False "[CHR ''a'', CHR 0xC3]"] svEscape_tiers [of True "[CHR ''a'', CHR 0xC3]"]
  by (simp add: char_req_escape_def char_req_quotes_def)

text \<open>
  C2 as stated fails: the tab is a control character, and a value with a tab is put in
  double quotes, not in the ANSI-C form; and with a signed \<^verbatim>\<open>char\<close> the byte 0xC3,
  which is not below 0x20, forces the ANSI-C form.
\<close>

theorem svEscape_tab_counterexample:
  "svEscape False [CHR ''a'', TAB, CHR ''b''] = [DQ, CHR ''a'', TAB, CHR ''b'', DQ] \<and>
   svEscape True [CHR ''a'', TAB, CHR ''b''] = [DQ, CHR ''a'', TAB, CHR ''b'', DQ] \<and>
   (of_char TAB :: nat) < 0x20 \<and>
   svEscape True [CHR 0xC3] = [CHR ''$'', SQ, BSL, CHR ''7'', CHR ''0'', CHR ''3'', SQ] \<and>
   \<not> (of_char (CHR 0xC3) :: nat) < 0x20"
  by (simp add: svEscape_def char_req_escape_def char_req_quotes_def char_val_def
      escape_ansic_def escape_ansic_char_def octal_digit_def char_of_eq_iff and_7_mod drop_bit_eq_div)


subsection \<open>An encoded value stays on one line\<close>

lemma octal_digit_not_newline: "octal_digit (x AND 7) \<noteq> LF"
proof -
  have "0 \<le> x mod 8" "x mod 8 < 8" by simp_all
  from octal_digit_props [OF this] have "ch_octal_is (octal_digit (x AND 7))"
    by (simp add: and_7_mod)
  then show ?thesis by (auto simp: ch_octal_is_def)
qed

lemma escape_ansic_char_no_newline: "LF \<notin> set (escape_ansic_char sg p)"
  by (simp add: escape_ansic_char_def octal_digit_not_newline [symmetric])

lemma svEscape_copy_chars: "set (svEscape_copy s) \<subseteq> set s \<union> {BSL}"
  by (induction s) auto

lemma svEscape_no_newline: "LF \<notin> set (svEscape sg v)"
proof (cases "\<exists>c\<in>set v. forces_ansic sg c")
  case True
  have "LF \<notin> set (escape_ansic sg v)"
    by (simp add: escape_ansic_def escape_ansic_char_no_newline)
  with True show ?thesis by (simp add: svEscape_cases)
next
  case False
  have f: "forces_ansic sg LF"
    by (simp add: forces_ansic_def char_req_escape_def char_req_quotes_def char_val_def)
  with False have nl: "LF \<notin> set v" by auto
  with svEscape_copy_chars [of v] have "LF \<notin> set (svEscape_copy v)" by auto
  with nl False show ?thesis by (simp add: svEscape_cases)
qed

section \<open>The document\<close>

subsection \<open>The loops over the list of lines\<close>

lemma shlist_find_none:
  "\<forall>l\<in>set cur. \<not> has_key k l \<Longrightarrow> shlist_find cur k = None"
  by (induction cur) auto

lemma shlist_find_skip:
  "\<not> has_key k a \<Longrightarrow> shlist_find (a # cur) k = shlist_find cur k"
  by simp

lemma shlist_find_hit:
  "has_key k a \<Longrightarrow> shlist_find (a # cur) k = Some (a, cur)"
  by simp

lemma get_loop_none:
  "\<forall>l\<in>set cur. \<not> has_key k l \<Longrightarrow> svGetValue_loop k cur ln = ln"
  by (simp add: svGetValue_loop.simps [of k cur] shlist_find_none)

lemma get_loop_skip:
  "\<not> has_key k a \<Longrightarrow> svGetValue_loop k (a # cur) ln = svGetValue_loop k cur ln"
  by (simp add: svGetValue_loop.simps [of k "a # cur"] svGetValue_loop.simps [of k cur]
      shlist_find_skip)

lemma get_loop_last:
  assumes "has_key k y" and "\<forall>l\<in>set B. \<not> has_key k l"
  shows "svGetValue_loop k (A @ y # B) ln = Some (y, B)"
proof (induction A arbitrary: ln)
  case Nil
  show ?case
    using assms by (simp add: svGetValue_loop.simps [of k "y # B"] shlist_find_hit get_loop_none)
next
  case (Cons a A)
  show ?case
  proof (cases "has_key k a")
    case True
    then show ?thesis
      by (simp add: svGetValue_loop.simps [of k "a # A @ y # B"] shlist_find_hit Cons)
  next
    case False
    then show ?thesis by (simp add: get_loop_skip Cons)
  qed
qed

lemma set_loop_none:
  "\<forall>l\<in>set cur. \<not> has_key k l \<Longrightarrow> svSetValue_loop k L m cur ln = (L, m, ln)"
  by (simp add: svSetValue_loop.simps [of k L m cur] shlist_find_none)

lemma set_loop_skip:
  "\<not> has_key k a \<Longrightarrow> svSetValue_loop k L m (a # cur) ln = svSetValue_loop k L m cur ln"
  by (simp add: svSetValue_loop.simps [of k L m "a # cur"] svSetValue_loop.simps [of k L m cur]
      shlist_find_skip)

lemma delete_link_at: "g_list_delete_link (P @ x # R) (x, R) = P @ R"
  by (simp add: g_list_delete_link_def node_pos_def)

lemma set_loop_some:
  assumes "has_key k y" and "\<forall>l\<in>set B. \<not> has_key k l"
  shows "\<forall>l\<in>set Q. \<not> has_key k l \<Longrightarrow>
    svSetValue_loop k (P @ x # Q @ A @ y # B) m (A @ y # B) (Some (x, Q @ A @ y # B)) =
    (P @ Q @ without_key k A @ y # B, True, Some (y, B))"
proof (induction A arbitrary: P x Q m)
  case Nil
  have "svSetValue_loop k (P @ x # Q @ y # B) m (y # B) (Some (x, Q @ y # B)) =
        svSetValue_loop k (P @ Q @ y # B) True B (Some (y, B))"
    using assms(1)
    by (simp add: svSetValue_loop.simps [of k _ m "y # B"] shlist_find_hit delete_link_at)
  then show ?case using assms(2) by (simp add: set_loop_none without_key_def)
next
  case (Cons a A)
  show ?case
  proof (cases "has_key k a")
    case True
    have "svSetValue_loop k (P @ x # Q @ (a # A) @ y # B) m ((a # A) @ y # B)
            (Some (x, Q @ (a # A) @ y # B)) =
          svSetValue_loop k ((P @ Q) @ a # [] @ A @ y # B) True (A @ y # B)
            (Some (a, [] @ A @ y # B))"
      using True
      by (simp add: svSetValue_loop.simps [of k _ m "a # A @ y # B"] shlist_find_hit
          delete_link_at)
    also have "\<dots> = ((P @ Q) @ [] @ without_key k A @ y # B, True, Some (y, B))"
      by (rule Cons.IH) simp
    finally show ?thesis using True by (simp add: without_key_def)
  next
    case False
    have "svSetValue_loop k (P @ x # Q @ (a # A) @ y # B) m ((a # A) @ y # B)
            (Some (x, Q @ (a # A) @ y # B)) =
          svSetValue_loop k (P @ x # (Q @ [a]) @ A @ y # B) m (A @ y # B)
            (Some (x, (Q @ [a]) @ A @ y # B))"
      using False by (simp add: set_loop_skip)
    also have "\<dots> = (P @ (Q @ [a]) @ without_key k A @ y # B, True, Some (y, B))"
      by (rule Cons.IH) (use Cons.prems False in simp)
    finally show ?thesis using False by (simp add: without_key_def)
  qed
qed

lemma set_loop_first:
  assumes "has_key k y" and "\<forall>l\<in>set B. \<not> has_key k l"
  shows "svSetValue_loop k (P @ A @ y # B) m (A @ y # B) None =
    (P @ without_key k A @ y # B, m \<or> (\<exists>l\<in>set A. has_key k l), Some (y, B))"
proof (induction A arbitrary: P)
  case Nil
  have "svSetValue_loop k (P @ y # B) m (y # B) None =
        svSetValue_loop k (P @ y # B) m B (Some (y, B))"
    using assms(1) by (simp add: svSetValue_loop.simps [of k _ m "y # B"] shlist_find_hit)
  then show ?case using assms(2) by (simp add: set_loop_none without_key_def)
next
  case (Cons a A)
  show ?case
  proof (cases "has_key k a")
    case True
    have "svSetValue_loop k (P @ (a # A) @ y # B) m ((a # A) @ y # B) None =
          svSetValue_loop k (P @ a # [] @ A @ y # B) m (A @ y # B) (Some (a, [] @ A @ y # B))"
      using True by (simp add: svSetValue_loop.simps [of k _ m "a # A @ y # B"] shlist_find_hit)
    also have "\<dots> = (P @ [] @ without_key k A @ y # B, True, Some (y, B))"
      by (rule set_loop_some [OF assms]) simp
    finally show ?thesis using True by (simp add: without_key_def)
  next
    case False
    have "svSetValue_loop k (P @ (a # A) @ y # B) m ((a # A) @ y # B) None =
          svSetValue_loop k ((P @ [a]) @ A @ y # B) m (A @ y # B) None"
      using False by (simp add: set_loop_skip)
    also have "\<dots> = ((P @ [a]) @ without_key k A @ y # B,
        m \<or> (\<exists>l\<in>set A. has_key k l), Some (y, B))"
      by (rule Cons.IH)
    finally show ?thesis using False by (simp add: without_key_def)
  qed
qed


lemma last_split:
  assumes "\<exists>l\<in>set L. has_key k l"
  shows "\<exists>A y B. L = A @ y # B \<and> has_key k y \<and> (\<forall>l\<in>set B. \<not> has_key k l)"
  using split_list_last_prop [OF assms] by blast

lemma node_pos_at: "node_pos (X @ y # B) (y', B) = length X"
  by (simp add: node_pos_def)

lemma line_set_has_key:
  "has_key k y \<Longrightarrow>
     line_set sg y v =
       (y \<noteq> Assignment k k (Some (svEscape sg v)), Assignment k k (Some (svEscape sg v)))"
  by (cases y) (auto simp: Let_def)

lemma clear_line_has_key:
  "has_key k y \<Longrightarrow> \<exists>kp t. y = Assignment kp k t \<and> clear_line y = (t \<noteq> None, Assignment kp k None)"
  by (cases y) (auto simp: clear_line_def)

lemma svSetValue_absent:
  assumes "\<forall>l\<in>set (lineList s). \<not> has_key k l"
  shows "svSetValue sg s k (Some v) =
           s\<lparr>lineList := lineList s @ [line_new_build sg k v], modified := True\<rparr>"
    and "svSetValue sg s k None = s"
  using assms by (simp_all add: svSetValue_def set_loop_none)

lemma svSetValue_present:
  assumes "lineList s = A @ y # B" and "has_key k y" and "\<forall>l\<in>set B. \<not> has_key k l"
  shows "svSetValue sg s k (Some v) =
           s\<lparr>lineList := without_key k A @ Assignment k k (Some (svEscape sg v)) # B,
             modified := (modified s \<or> (\<exists>l\<in>set A. has_key k l) \<or>
                          y \<noteq> Assignment k k (Some (svEscape sg v)))\<rparr>"
proof -
  have "svSetValue_loop k (lineList s) (modified s) (lineList s) None =
        (without_key k A @ y # B, modified s \<or> (\<exists>l\<in>set A. has_key k l), Some (y, B))"
    using set_loop_first [OF assms(2,3), of "[]" A "modified s"] assms(1) by simp
  then show ?thesis
    using assms(2) by (simp add: svSetValue_def node_pos_at line_set_has_key disj_assoc)
qed

lemma svUnsetValue_present:
  assumes "lineList s = A @ Assignment kp k t # B" and "\<forall>l\<in>set B. \<not> has_key k l"
  shows "svSetValue sg s k None =
           s\<lparr>lineList := without_key k A @ Assignment kp k None # B,
             modified := (modified s \<or> (\<exists>l\<in>set A. has_key k l) \<or> t \<noteq> None)\<rparr>"
proof -
  have "svSetValue_loop k (lineList s) (modified s) (lineList s) None =
        (without_key k A @ Assignment kp k t # B, modified s \<or> (\<exists>l\<in>set A. has_key k l),
         Some (Assignment kp k t, B))"
    using set_loop_first [OF _ assms(2), of "Assignment kp k t" "[]" A "modified s"] assms(1)
    by simp
  then show ?thesis
    by (simp add: svSetValue_def node_pos_at clear_line_def disj_assoc)
qed

lemma svGetValue_internal_present:
  assumes "lineList s = A @ Assignment kp k t # B" and "\<forall>l\<in>set B. \<not> has_key k l"
  shows "svGetValue_internal s k = (case t of None \<Rightarrow> None | Some e \<Rightarrow> svUnescape e)"
  using get_loop_last [OF _ assms(2), of "Assignment kp k t" A None] assms(1)
  by (simp add: svGetValue_internal_def split: option.splits)

lemma svGetValue_internal_absent:
  assumes "\<forall>l\<in>set (lineList s). \<not> has_key k l"
  shows "svGetValue_internal s k = None"
  using assms by (simp add: svGetValue_internal_def get_loop_none)

lemma has_key_cases: "has_key k y \<Longrightarrow> \<exists>kp t. y = Assignment kp k t"
  by (cases y) auto

lemma get_after_set:
  assumes "NUL \<notin> set v"
  shows "svGetValue_internal (svSetValue sg s k (Some v)) k = Some v"
proof (cases "\<exists>l\<in>set (lineList s). has_key k l")
  case False
  then have "lineList (svSetValue sg s k (Some v)) =
             lineList s @ Assignment k k (Some (svEscape sg v)) # []"
    by (simp add: svSetValue_absent line_new_build_def)
  from svGetValue_internal_present [OF this] show ?thesis
    using assms by (simp add: svUnescape_svEscape)
next
  case True
  from last_split [OF this] obtain A y B where
    d: "lineList s = A @ y # B" "has_key k y" "\<forall>l\<in>set B. \<not> has_key k l"
    by blast
  have "lineList (svSetValue sg s k (Some v)) =
        without_key k A @ Assignment k k (Some (svEscape sg v)) # B"
    by (simp add: svSetValue_present [OF d])
  from svGetValue_internal_present [OF this d(3)] show ?thesis
    using assms by (simp add: svUnescape_svEscape)
qed

text \<open>
  C10. For every document, every key that is a shell name and every non-empty C string
  \<open>v\<close> without a newline, \<^verbatim>\<open>svGetValueString\<close> after \<^verbatim>\<open>svSetValue\<close> returns \<open>v\<close>.
\<close>

theorem get_after_set_coherence:
  assumes "shell_is_name k" and "v \<noteq> []" and "NUL \<notin> set v" and "LF \<notin> set v"
  shows "svGetValueString (svSetValue sg s k (Some v)) k = Some v"
  using assms(2,3) by (simp add: svGetValueString_def get_after_set)


theorem get_after_set_coherence_witness:
  "svGetValueString
     (svSetValue True (doc [Assignment ''  FOO'' ''FOO'' (Some ''1''), Raw ''# c''])
        ''FOO'' (Some ''a b'')) ''FOO'' = Some ''a b''"
  by (rule get_after_set_coherence)
     (simp_all add: shell_is_name_def g_ascii_isalpha_def g_ascii_isalnum_def)

subsection \<open>Reading\<close>

lemma svUnescape_Nil: "svUnescape [] = Some []"
  by (simp add: svUnescape_def out_value_def)

lemma last_with_key_present:
  assumes "has_key k y" and "\<forall>l\<in>set B. \<not> has_key k l"
  shows "last_with_key k (A @ y # B) = Some y"
proof -
  have "filter (has_key k) (A @ y # B) = filter (has_key k) A @ [y]"
    using assms by (simp add: filter_empty_conv)
  then show ?thesis
    by (simp add: last_with_key_def)
qed

text \<open>
  C3, as the code has it. \<^verbatim>\<open>svGetValueString\<close> finds the last assignment with the key
  and returns nothing when there is none or when it has no value; otherwise it decodes
  the stored text and returns nothing when decoding fails or when the decoded value is
  empty, and the decoded value in every other case. A stored text that is empty decodes
  to the empty value.
\<close>

theorem svGetValueString_last:
  "svGetValueString s k =
     (case last_with_key k (lineList s) of
        None \<Rightarrow> None
      | Some l \<Rightarrow>
          (case line_value l of
             None \<Rightarrow> None
           | Some t \<Rightarrow>
               (case svUnescape t of
                  None \<Rightarrow> None
                | Some v \<Rightarrow> if v = [] then None else Some v))) \<and>
   svUnescape [] = Some []"
proof (cases "\<exists>l\<in>set (lineList s). has_key k l")
  case False
  then have "filter (has_key k) (lineList s) = []" by (simp add: filter_empty_conv)
  then have "last_with_key k (lineList s) = None" by (simp add: last_with_key_def)
  with False show ?thesis
    by (simp add: svGetValueString_def svGetValue_internal_absent svUnescape_Nil)
next
  case True
  from last_split [OF this] obtain A y B where
    d: "lineList s = A @ y # B" "has_key k y" "\<forall>l\<in>set B. \<not> has_key k l"
    by blast
  from has_key_cases [OF d(2)] obtain kp t where y: "y = Assignment kp k t" by blast
  have l: "last_with_key k (lineList s) = Some y"
    using last_with_key_present [OF d(2,3)] d(1) by simp
  have "svGetValue_internal s k = (case t of None \<Rightarrow> None | Some e \<Rightarrow> svUnescape e)"
    using svGetValue_internal_present [OF _ d(3)] d(1) y by simp
  then show ?thesis
    by (simp add: svGetValueString_def l y line_value_def svUnescape_Nil split: option.splits)
qed

theorem svGetValueString_last_witness:
  "svGetValueString (doc [Assignment ''FOO'' ''FOO'' (Some ''1''), Raw ''# c'',
      Assignment ''FOO'' ''FOO'' (Some [DQ, CHR ''a'', CHR '' '', CHR ''b'', DQ])]) ''FOO'' =
   Some ''a b''"
  using svGetValueString_last [of "doc [Assignment ''FOO'' ''FOO'' (Some ''1''), Raw ''# c'',
      Assignment ''FOO'' ''FOO'' (Some [DQ, CHR ''a'', CHR '' '', CHR ''b'', DQ])]" "''FOO''"]
  by (simp add: doc_def last_with_key_def line_value_def svUnescape_def gstr_init_def
      g_ascii_isspace_def out_value_def c_str_def)

text \<open>
  C3 as stated fails: the stored text of \<^verbatim>\<open>FOO=""\<close> is not empty and decodes without
  error, to the empty value, and nothing is returned.
\<close>

theorem svGetValueString_empty_counterexample:
  "svUnescape [DQ, DQ] = Some [] \<and> [DQ, DQ] \<noteq> [] \<and>
   svGetValueString (doc [Assignment ''FOO'' ''FOO'' (Some [DQ, DQ])]) ''FOO'' = None"
proof -
  have u: "svUnescape [DQ, DQ] = Some []"
    by (simp add: svUnescape_def gstr_init_def g_ascii_isspace_def out_value_def)
  have "lineList (doc [Assignment ''FOO'' ''FOO'' (Some [DQ, DQ])]) =
        [] @ Assignment ''FOO'' ''FOO'' (Some [DQ, DQ]) # []"
    by (simp add: doc_def)
  from svGetValue_internal_present [OF this] u show ?thesis
    by (simp add: svGetValueString_def)
qed

subsection \<open>Writing back\<close>

text \<open>
  C9. Writing a file structure that is not modified changes nothing and succeeds: no
  call is made, the bytes on disk stay, and the result is \<^verbatim>\<open>TRUE\<close>.
\<close>

theorem svWriteFile_unmodified:
  "\<not> modified s \<Longrightarrow> svWriteFile s mode w = (None, s, w)"
  by (simp add: svWriteFile_def)

theorem svWriteFile_unmodified_witness:
  "svWriteFile (doc [Assignment ''FOO'' ''FOO'' (Some ''1'')]) 0
     ((world_with (''FOO=1'' @ [LF]))\<lparr>may_write := False\<rparr>) =
   (None, doc [Assignment ''FOO'' ''FOO'' (Some ''1'')],
     (world_with (''FOO=1'' @ [LF]))\<lparr>may_write := False\<rparr>)"
  by (rule svWriteFile_unmodified) (simp add: doc_def)

lemma svWriteFile_lines_append:
  "svWriteFile_lines (X @ Y) = svWriteFile_lines X @ svWriteFile_lines Y"
  by (simp add: svWriteFile_lines_def)

lemma svWriteFile_lines_Nil: "svWriteFile_lines [] = []"
  by (simp add: svWriteFile_lines_def)

lemma svWriteFile_lines_Cons:
  "svWriteFile_lines (l # Y) = svWriteFile_line l @ svWriteFile_lines Y"
  by (simp add: svWriteFile_lines_def)

lemma svWriteFile_modified:
  assumes "modified s" and "may_write w" and "ftruncate_ok w" and "dup_ok w"
  shows "fst (svWriteFile s mode w) = None \<and>
         disk (snd (snd (svWriteFile s mode w))) = Some (svWriteFile_lines (lineList s))"
  using assms by (simp add: svWriteFile_def open_wronly_creat_def)

lemma without_key_split:
  assumes "has_key k y" and "\<forall>l\<in>set B. \<not> has_key k l"
  shows "without_key k (A @ y # B) = without_key k A @ B"
  using assms by (simp add: without_key_def filter_id_conv)

lemma find_dropWhile:
  "List.find (\<lambda>c. \<not> P c) t = (case dropWhile P t of [] \<Rightarrow> None | c # _ \<Rightarrow> Some c)"
  by (induction t) auto

lemma write_raw_cases:
  "svWriteFile_line (Raw t) =
     (case first_non_space t of
        None \<Rightarrow> t @ [LF]
      | Some c \<Rightarrow> if c = CHR ''#'' then t @ [LF] else ''#NM: '' @ t @ [LF])"
proof -
  have "(case d of [] \<Rightarrow> x | c # _ \<Rightarrow> f c) =
        (case (case d of [] \<Rightarrow> None | c # _ \<Rightarrow> Some c) of None \<Rightarrow> x | Some c \<Rightarrow> f c)"
    for d :: string and x :: string and f
    by (cases d) simp_all
  then show ?thesis
    by (simp only: first_non_space_def find_dropWhile svWriteFile_line.simps
        nm_str_skip_leading_spaces_def)
qed

lemma first_non_space_None:
  "first_non_space t = None \<longleftrightarrow> (\<forall>c\<in>set t. g_ascii_isspace c)"
  by (auto simp: first_non_space_def find_None_iff)

text \<open>
  A document that was just opened is not modified, and writing it back leaves the file
  alone; its lines are written once the document is marked modified.
\<close>

lemma svWriteFile_after_open:
  "svOpenFileInternal name create w = Inr s \<Longrightarrow> svWriteFile s mode w = (None, s, w)"
  by (auto simp: svOpenFileInternal_def svWriteFile_def svFile_new_def Let_def
      split: if_splits option.splits)

text \<open>
  C7. Writing back a modified document succeeds and puts every raw line on disk, in its
  place among what the other lines write: as it is, followed by a newline, when nothing
  is left of its text once leading white space is skipped (the text is empty or blank)
  or when its first character that is not white space is \<^verbatim>\<open>#\<close>; and behind the marker
  \<^verbatim>\<open>#NM: \<close>, followed by a newline, in every other case.
\<close>

theorem write_raw_line:
  assumes "modified s" and "may_write w" and "ftruncate_ok w" and "dup_ok w"
    and "lineList s = A @ Raw t # B"
  shows "fst (svWriteFile s mode w) = None \<and>
         disk (snd (snd (svWriteFile s mode w))) =
           Some (svWriteFile_lines A @
                 (if first_non_space t = None \<or> first_non_space t = Some (CHR ''#'')
                  then t @ [LF] else ''#NM: '' @ t @ [LF]) @
                 svWriteFile_lines B)"
proof -
  have "svWriteFile_line (Raw t) =
        (if first_non_space t = None \<or> first_non_space t = Some (CHR ''#'')
         then t @ [LF] else ''#NM: '' @ t @ [LF])"
    unfolding write_raw_cases by (cases "first_non_space t") simp_all
  with svWriteFile_modified [OF assms(1-4), of mode] assms(5) show ?thesis
    by (simp add: svWriteFile_lines_append svWriteFile_lines_Cons)
qed

theorem write_raw_line_witness:
  "svCreateFile ''ifcfg-eth0''
     (world_with (''export PATH=/bin'' @ [LF] @ ''  '' @ [LF] @ '' # note'' @ [LF])) =
     Inr ((doc [Raw ''export PATH=/bin'', Raw ''  '', Raw '' # note''])\<lparr>fd := 3\<rparr>) \<and>
   fst (svWriteFile
      (svFileSetModified
         ((doc [Raw ''export PATH=/bin'', Raw ''  '', Raw '' # note''])\<lparr>fd := 3\<rparr>))
      0 (world_with (''export PATH=/bin'' @ [LF] @ ''  '' @ [LF] @ '' # note'' @ [LF]))) = None \<and>
   disk (snd (snd (svWriteFile
      (svFileSetModified
         ((doc [Raw ''export PATH=/bin'', Raw ''  '', Raw '' # note''])\<lparr>fd := 3\<rparr>))
      0 (world_with (''export PATH=/bin'' @ [LF] @ ''  '' @ [LF] @ '' # note'' @ [LF]))))) =
     Some (''#NM: export PATH=/bin'' @ [LF] @ ''  '' @ [LF] @ '' # note'' @ [LF])"
proof -
  let ?d = "(doc [Raw ''export PATH=/bin'', Raw ''  '', Raw '' # note''])\<lparr>fd := 3\<rparr>"
  let ?w = "world_with (''export PATH=/bin'' @ [LF] @ ''  '' @ [LF] @ '' # note'' @ [LF])"
  have o: "svCreateFile ''ifcfg-eth0'' ?w = Inr ?d"
    by (simp add: svCreateFile_def svOpenFileInternal_def world_with_def open_rdwr_def
        open_rdonly_def nm_utils_fd_get_contents_def c_str_def svFile_new_def doc_def
        parse_arena.simps line_new_parse_def g_ascii_isspace_def g_ascii_isalpha_def
        g_ascii_isalnum_def g_ascii_isdigit_def)
  have m: "modified (svFileSetModified ?d)" by (simp add: svFileSetModified_def)
  have io: "may_write ?w" "ftruncate_ok ?w" "dup_ok ?w" by (simp_all add: world_with_def)
  have l: "lineList (svFileSetModified ?d) =
           [] @ Raw ''export PATH=/bin'' # [Raw ''  '', Raw '' # note'']"
    by (simp add: svFileSetModified_def doc_def)
  have l2: "lineList (svFileSetModified ?d) =
           [Raw ''export PATH=/bin''] @ Raw ''  '' # [Raw '' # note'']"
    by (simp add: svFileSetModified_def doc_def)
  have f: "first_non_space ''export PATH=/bin'' = Some CHR ''e''"
    "first_non_space ''  '' = None"
    by (simp_all add: first_non_space_def g_ascii_isspace_def)
  have r: "svWriteFile_lines [] = []"
    "svWriteFile_lines [Raw '' # note''] = '' # note'' @ [LF]"
    "svWriteFile_lines [Raw ''  '', Raw '' # note''] = ''  '' @ [LF] @ '' # note'' @ [LF]"
    "svWriteFile_lines [Raw ''export PATH=/bin''] = ''#NM: export PATH=/bin'' @ [LF]"
    by (simp_all add: svWriteFile_lines_def nm_str_skip_leading_spaces_def g_ascii_isspace_def)
  from write_raw_line [OF m io l, of 0] write_raw_line [OF m io l2, of 0] o show ?thesis
    unfolding f r by simp
qed

lemma dquote_unterminated:
  "DQ \<notin> set t \<Longrightarrow> svUnescape_dquote v i t s = None"
proof (induction "length t" arbitrary: t i s rule: less_induct)
  case less
  show ?case
  proof (cases t)
    case Nil
    then show ?thesis by simp
  next
    case (Cons c cs)
    have one: "svUnescape_dquote v (i + 1) cs (s @ [c]) = None"
      by (rule less.hyps) (use Cons less.prems in simp_all)
    have two: "svUnescape_dquote v (i + 2) cs' (s @ dquote_escape v e) = None"
      if "cs = e # cs'" for e cs'
      by (rule less.hyps) (use Cons less.prems that in simp_all)
    from less.prems Cons have "c \<noteq> DQ" by auto
    then show ?thesis
      unfolding Cons svUnescape_dquote.simps using one two by (simp split: list.splits)
  qed
qed

text \<open>
  C8. Writing back a modified document succeeds and puts every assignment that has a
  stored text on disk, in its place among what the other lines write: when the text
  does not decode, as the line \<^verbatim>\<open>key=\<close> followed by the original
  \<^verbatim>\<open>key_with_prefix=value\<close> behind the marker \<^verbatim>\<open>#NM: \<close>; when it decodes, as it is.
  A text with an opening double quote and no closing one does not decode; the empty
  text does.
\<close>

theorem write_assignment_line:
  assumes "modified s" and "may_write w" and "ftruncate_ok w" and "dup_ok w"
    and "lineList s = A @ Assignment kp k (Some t) # B"
  shows "fst (svWriteFile s mode w) = None \<and>
         disk (snd (snd (svWriteFile s mode w))) =
           Some (svWriteFile_lines A @
                 (if svUnescape t = None
                  then k @ ''='' @ [LF] @ ''#NM: '' @ kp @ ''='' @ t @ [LF]
                  else kp @ ''='' @ t @ [LF]) @
                 svWriteFile_lines B) \<and>
         (DQ \<notin> set u \<longrightarrow> svUnescape (DQ # u) = None) \<and>
         svUnescape [] = Some []"
proof -
  have "(DQ \<notin> set u \<longrightarrow> svUnescape (DQ # u) = None) \<and> svUnescape [] = Some []"
    by (simp add: dquote_unterminated svUnescape_def gstr_init_def g_ascii_isspace_def
        out_value_def)
  with svWriteFile_modified [OF assms(1-4), of mode] assms(5) show ?thesis
    by (simp add: svWriteFile_lines_append svWriteFile_lines_Cons)
qed

theorem write_assignment_line_witness:
  "svCreateFile ''ifcfg-eth0''
     (world_with (''FOO='' @ [DQ] @ ''bad'' @ [LF] @ '' BAR=ok'' @ [LF])) =
     Inr ((doc [Assignment ''FOO'' ''FOO'' (Some (DQ # ''bad'')),
                Assignment '' BAR'' ''BAR'' (Some ''ok'')])\<lparr>fd := 3\<rparr>) \<and>
   fst (svWriteFile
      (svFileSetModified
         ((doc [Assignment ''FOO'' ''FOO'' (Some (DQ # ''bad'')),
                Assignment '' BAR'' ''BAR'' (Some ''ok'')])\<lparr>fd := 3\<rparr>))
      0 (world_with (''FOO='' @ [DQ] @ ''bad'' @ [LF] @ '' BAR=ok'' @ [LF]))) = None \<and>
   disk (snd (snd (svWriteFile
      (svFileSetModified
         ((doc [Assignment ''FOO'' ''FOO'' (Some (DQ # ''bad'')),
                Assignment '' BAR'' ''BAR'' (Some ''ok'')])\<lparr>fd := 3\<rparr>))
      0 (world_with (''FOO='' @ [DQ] @ ''bad'' @ [LF] @ '' BAR=ok'' @ [LF]))))) =
     Some (''FOO='' @ [LF] @ ''#NM: FOO='' @ [DQ] @ ''bad'' @ [LF] @ '' BAR=ok'' @ [LF])"
proof -
  let ?d = "(doc [Assignment ''FOO'' ''FOO'' (Some (DQ # ''bad'')),
                  Assignment '' BAR'' ''BAR'' (Some ''ok'')])\<lparr>fd := 3\<rparr>"
  let ?w = "world_with (''FOO='' @ [DQ] @ ''bad'' @ [LF] @ '' BAR=ok'' @ [LF])"
  have o: "svCreateFile ''ifcfg-eth0'' ?w = Inr ?d"
    by (simp add: svCreateFile_def svOpenFileInternal_def world_with_def open_rdwr_def
        open_rdonly_def nm_utils_fd_get_contents_def c_str_def svFile_new_def doc_def
        parse_arena.simps line_new_parse_def g_ascii_isspace_def g_ascii_isalpha_def
        g_ascii_isalnum_def g_ascii_isdigit_def)
  have m: "modified (svFileSetModified ?d)" by (simp add: svFileSetModified_def)
  have io: "may_write ?w" "ftruncate_ok ?w" "dup_ok ?w" by (simp_all add: world_with_def)
  have l: "lineList (svFileSetModified ?d) =
           [] @ Assignment ''FOO'' ''FOO'' (Some (DQ # ''bad'')) #
           [Assignment '' BAR'' ''BAR'' (Some ''ok'')]"
    by (simp add: svFileSetModified_def doc_def)
  have l2: "lineList (svFileSetModified ?d) =
           [Assignment ''FOO'' ''FOO'' (Some (DQ # ''bad''))] @
           Assignment '' BAR'' ''BAR'' (Some ''ok'') # []"
    by (simp add: svFileSetModified_def doc_def)
  have b: "svUnescape (DQ # ''bad'') = None"
    using write_assignment_line [OF m io l, of 0 "''bad''"] by simp
  have k: "svUnescape ''ok'' = Some ''ok''"
    by (simp add: svUnescape_def g_ascii_isspace_def out_value_def)
  have r: "svWriteFile_lines [] = []"
    "svWriteFile_lines [Assignment ''FOO'' ''FOO'' (Some (DQ # ''bad''))] =
       ''FOO='' @ [LF] @ ''#NM: FOO='' @ [DQ] @ ''bad'' @ [LF]"
    by (simp_all add: svWriteFile_lines_def b)
  from write_assignment_line [OF m io l2, of 0 "''bad''"] o show ?thesis
    unfolding k r by simp
qed

subsection \<open>Reading back what was written\<close>

text \<open>
  What \<^verbatim>\<open>svWriteFile\<close> writes for well-formed lines is read back by
  \<^verbatim>\<open>svOpenFileInternal\<close> line by line; the lines that \<^verbatim>\<open>line_new_parse\<close> makes are
  well formed, and \<^verbatim>\<open>svSetValue\<close> keeps them so.
\<close>

lemma parse_arena_line:
  assumes "LF \<notin> set t"
  shows "parse_arena (t @ LF # rest) = line_new_parse t # parse_arena rest"
proof -
  have "takeWhile (\<lambda>c. c \<noteq> LF) (t @ LF # rest) = t"
    using assms by (induction t) auto
  moreover have "dropWhile (\<lambda>c. c \<noteq> LF) (t @ LF # rest) = LF # rest"
    using assms by (induction t) auto
  ultimately show ?thesis
    by (simp add: parse_arena.simps [of "t @ LF # rest"])
qed

lemma parse_arena_Nil: "parse_arena [] = []"
  by (simp add: parse_arena.simps [of "[]"])

lemma line_parse_name_ok:
  assumes "list_all (\<lambda>d. g_ascii_isalnum d \<or> d = CHR ''_'') ds"
    and "CHR ''='' \<notin> set ds"
  shows "line_parse_name v k e (ds @ CHR ''='' # t) =
         Some (Assignment (take (e + length ds) v) (drop k (take (e + length ds) v)) (Some t))"
  using assms by (induction ds arbitrary: e) auto

lemma isalnum_not_eq: "g_ascii_isalnum d \<or> d = CHR ''_'' \<Longrightarrow> d \<noteq> CHR ''=''"
  by (auto simp: g_ascii_isalnum_def g_ascii_isalpha_def g_ascii_isdigit_def)

lemma line_parse_from_ok:
  assumes "list_all g_ascii_isspace sp" and "shell_is_name k"
  shows "line_parse_from v n (sp @ k @ CHR ''='' # t) =
         Some (Assignment (take (n + length sp + length k) v)
                 (drop (n + length sp) (take (n + length sp + length k) v)) (Some t))"
  using assms(1)
proof (induction sp arbitrary: n)
  case Nil
  from assms(2) obtain c cs where k: "k = c # cs" "g_ascii_isalpha c \<or> c = CHR ''_''"
    "list_all (\<lambda>d. g_ascii_isalnum d \<or> d = CHR ''_'') cs"
    by (auto simp: shell_is_name_def split: list.splits)
  have ns: "\<not> g_ascii_isspace c"
    using k(2) by (auto simp: g_ascii_isspace_def g_ascii_isalpha_def)
  have ne: "CHR ''='' \<notin> set cs"
    using k(3) isalnum_not_eq by (auto simp: list_all_iff)
  show ?case
    using ns k(2) line_parse_name_ok [OF k(3) ne, of v n "n + 1" t] by (simp add: k(1))
next
  case (Cons a sp)
  then show ?case by simp
qed

lemma line_new_parse_assignment:
  assumes "shell_is_name k" and "nm_str_skip_leading_spaces kp = k"
  shows "line_new_parse (kp @ CHR ''='' # t) = Assignment kp k (Some t)"
proof -
  define sp where "sp = takeWhile g_ascii_isspace kp"
  have kp: "kp = sp @ k"
    using assms(2) takeWhile_dropWhile_id [of g_ascii_isspace kp]
    by (simp add: sp_def nm_str_skip_leading_spaces_def)
  have sp: "list_all g_ascii_isspace sp"
    by (simp add: sp_def list_all_iff) (meson set_takeWhileD)
  show ?thesis
    using line_parse_from_ok [OF sp assms(1), of "sp @ k @ CHR ''='' # t" 0 t]
    by (simp add: line_new_parse_def kp)
qed

lemma line_new_parse_comment:
  assumes "first_non_space t = None \<or> first_non_space t = Some (CHR ''#'')"
  shows "line_new_parse t = Raw t"
proof -
  have "line_parse_from v n t = None" for v n
    using assms
    by (induction t arbitrary: n)
       (auto simp: first_non_space_def g_ascii_isalpha_def split: if_splits)
  then show ?thesis by (simp add: line_new_parse_def)
qed


lemma shell_name_chars:
  assumes "shell_is_name k"
  shows "LF \<notin> set k" and "nm_str_skip_leading_spaces k = k"
proof -
  from assms obtain c cs where k: "k = c # cs" "g_ascii_isalpha c \<or> c = CHR ''_''"
    "list_all (\<lambda>d. g_ascii_isalnum d \<or> d = CHR ''_'') cs"
    by (auto simp: shell_is_name_def split: list.splits)
  have "d \<noteq> LF" if "g_ascii_isalnum d \<or> d = CHR ''_''" for d
    using that by (auto simp: g_ascii_isalnum_def g_ascii_isalpha_def g_ascii_isdigit_def)
  moreover have "g_ascii_isalnum c \<or> c = CHR ''_''"
    using k(2) by (auto simp: g_ascii_isalnum_def)
  ultimately show "LF \<notin> set k"
    using k(3) by (auto simp: k(1) list_all_iff)
  have "\<not> g_ascii_isspace c"
    using k(2) by (auto simp: g_ascii_isspace_def g_ascii_isalpha_def)
  then show "nm_str_skip_leading_spaces k = k"
    by (simp add: k(1) nm_str_skip_leading_spaces_def)
qed

lemma first_non_space_marker: "first_non_space (''#NM: '' @ t) = Some (CHR ''#'')"
  by (simp add: first_non_space_def g_ascii_isspace_def)

lemma reread_written_line:
  assumes "line_ok l"
  shows "parse_arena (svWriteFile_line l @ rest) = reread l @ parse_arena rest"
proof (cases l)
  case (Raw t)
  with assms have nl: "LF \<notin> set t" by (simp add: line_ok_def)
  have m: "LF \<notin> set (''#NM: '' @ t)" using nl by simp
  show ?thesis
  proof (cases "first_non_space t = None \<or> first_non_space t = Some (CHR ''#'')")
    case True
    then have "svWriteFile_line (Raw t) = t @ [LF]" and "reread (Raw t) = [Raw t]"
      by (auto simp: write_raw_cases simp del: svWriteFile_line.simps)
    with parse_arena_line [OF nl, of rest] line_new_parse_comment [OF True] Raw
    show ?thesis by simp
  next
    case False
    then obtain c where c: "first_non_space t = Some c" "c \<noteq> CHR ''#''"
      by (cases "first_non_space t") auto
    then have "svWriteFile_line (Raw t) = (''#NM: '' @ t) @ [LF]"
      and "reread (Raw t) = [Raw (''#NM: '' @ t)]"
      by (simp_all add: write_raw_cases del: svWriteFile_line.simps)
    with parse_arena_line [OF m, of rest]
      line_new_parse_comment [of "''#NM: '' @ t", OF disjI2, OF first_non_space_marker] Raw
    show ?thesis by simp
  qed
next
  case (Assignment kp k t)
  with assms have ok: "shell_is_name k" "nm_str_skip_leading_spaces kp = k" "LF \<notin> set kp"
    by (simp_all add: line_ok_def)
  show ?thesis
  proof (cases t)
    case None
    with Assignment show ?thesis by simp
  next
    case (Some e)
    with Assignment assms have e: "LF \<notin> set e" by (simp add: line_ok_def)
    have a: "LF \<notin> set (kp @ CHR ''='' # e)" using ok(3) e by simp
    have b: "LF \<notin> set (k @ CHR ''='' # [])" using shell_name_chars(1) [OF ok(1)] by simp
    have c: "LF \<notin> set (''#NM: '' @ kp @ CHR ''='' # e)" using ok(3) e by simp
    show ?thesis
    proof (cases "svUnescape e = None")
      case False
      with parse_arena_line [OF a, of rest] line_new_parse_assignment [OF ok(1,2), of e]
        Assignment Some
      show ?thesis by simp
    next
      case True
      have "parse_arena ((k @ CHR ''='' # []) @ LF # (''#NM: '' @ kp @ CHR ''='' # e) @ LF # rest) =
            line_new_parse (k @ CHR ''='' # []) #
            line_new_parse (''#NM: '' @ kp @ CHR ''='' # e) # parse_arena rest"
        by (simp only: parse_arena_line [OF b] parse_arena_line [OF c])
      moreover have "line_new_parse (k @ CHR ''='' # []) = Assignment k k (Some [])"
        by (rule line_new_parse_assignment [OF ok(1) shell_name_chars(2) [OF ok(1)]])
      moreover have "line_new_parse (''#NM: '' @ kp @ CHR ''='' # e) =
                     Raw (''#NM: '' @ kp @ CHR ''='' # e)"
        by (rule line_new_parse_comment [OF disjI2, OF first_non_space_marker])
      ultimately show ?thesis
        using True Assignment Some by simp
    qed
  qed
qed

lemma reread_written:
  "list_all line_ok L \<Longrightarrow> parse_arena (svWriteFile_lines L) = concat (map reread L)"
proof (induction L)
  case Nil
  then show ?case by (simp add: svWriteFile_lines_def parse_arena_Nil)
next
  case (Cons l L)
  then show ?case
    using reread_written_line [of l "svWriteFile_lines L"]
    by (simp add: svWriteFile_lines_Cons)
qed

lemma reread_key: "x \<in> set (reread l) \<Longrightarrow> has_key k x \<Longrightarrow> has_key k l"
  by (cases l rule: reread.cases) (auto split: option.splits if_splits)

lemma reread_without_key:
  "filter (has_key k) (concat (map reread (without_key k L))) = []"
  by (auto simp: filter_empty_conv without_key_def dest: reread_key)

lemma reread_no_key:
  "\<forall>l\<in>set L. \<not> has_key k l \<Longrightarrow> filter (has_key k) (concat (map reread L)) = []"
  by (auto simp: filter_empty_conv dest: reread_key)

lemma line_ok_new:
  assumes "shell_is_name k"
  shows "line_ok (Assignment k k (Some (svEscape sg v)))"
  using shell_name_chars [OF assms] by (simp add: line_ok_def assms svEscape_no_newline)

lemma key_lines_written:
  assumes "list_all line_ok X" and "list_all line_ok B" and "line_ok l"
    and "\<forall>x\<in>set X. \<not> has_key k x" and "\<forall>x\<in>set B. \<not> has_key k x"
  shows "key_lines k (svWriteFile_lines X @ svWriteFile_line l @ svWriteFile_lines B) =
         filter (has_key k) (reread l)"
    and "key_lines k (svWriteFile_lines X @ svWriteFile_lines B) = []"
proof -
  have "list_all line_ok (X @ l # B)" using assms(1-3) by simp
  from reread_written [OF this]
  show "key_lines k (svWriteFile_lines X @ svWriteFile_line l @ svWriteFile_lines B) =
         filter (has_key k) (reread l)"
    using assms(4,5)
    by (simp add: key_lines_def svWriteFile_lines_append svWriteFile_lines_Cons reread_no_key)
  have "list_all line_ok (X @ B)" using assms(1,2) by simp
  from reread_written [OF this]
  show "key_lines k (svWriteFile_lines X @ svWriteFile_lines B) = []"
    using assms(4,5)
    by (simp add: key_lines_def svWriteFile_lines_append reread_no_key)
qed

lemma without_key_ok: "list_all line_ok L \<Longrightarrow> list_all line_ok (without_key k L)"
  by (simp add: without_key_def list_all_iff)

lemma without_key_none: "\<forall>x\<in>set (without_key k L). \<not> has_key k x"
  by (simp add: without_key_def)

lemma line_parse_name_shape:
  assumes "line_parse_name v k e cs = Some l"
    and "v = pre @ name @ cs" and "length pre = k" and "length (pre @ name) = e"
    and "list_all (\<lambda>d. g_ascii_isalnum d \<or> d = CHR ''_'') name"
  shows "\<exists>name' t. l = Assignment (pre @ name') name' (Some t) \<and>
           list_all (\<lambda>d. g_ascii_isalnum d \<or> d = CHR ''_'') name' \<and>
           v = pre @ name' @ CHR ''='' # t \<and> (\<exists>more. name' = name @ more)"
  using assms
proof (induction cs arbitrary: e name)
  case Nil
  then show ?case by simp
next
  case (Cons c cs)
  show ?case
  proof (cases "c = CHR ''=''")
    case True
    with Cons.prems show ?thesis by auto
  next
    case False
    with Cons.prems(1) have c: "g_ascii_isalnum c \<or> c = CHR ''_''"
      and r: "line_parse_name v k (e + 1) cs = Some l"
      by (auto split: if_splits)
    from Cons.IH [OF r, of "name @ [c]"] Cons.prems c
    obtain name' t where "l = Assignment (pre @ name') name' (Some t)"
      "list_all (\<lambda>d. g_ascii_isalnum d \<or> d = CHR ''_'') name'"
      "v = pre @ name' @ CHR ''='' # t" "\<exists>more. name' = (name @ [c]) @ more"
      by auto
    then show ?thesis by auto
  qed
qed

lemma line_parse_from_shape:
  assumes "line_parse_from v n cs = Some l"
    and "v = pre @ cs" and "length pre = n" and "list_all g_ascii_isspace pre"
  shows "\<exists>kp k t. l = Assignment kp k (Some t) \<and> shell_is_name k \<and>
           nm_str_skip_leading_spaces kp = k \<and> v = kp @ CHR ''='' # t"
  using assms
proof (induction cs arbitrary: n pre)
  case Nil
  then show ?case by simp
next
  case (Cons c cs)
  show ?case
  proof (cases "g_ascii_isspace c")
    case True
    with Cons.prems(1) have "line_parse_from v (n + 1) cs = Some l" by simp
    from Cons.IH [OF this, of "pre @ [c]"] Cons.prems True show ?thesis by simp
  next
    case False
    with Cons.prems(1) have a: "g_ascii_isalpha c \<or> c = CHR ''_''"
      and r: "line_parse_name v n (n + 1) cs = Some l"
      by (auto split: if_splits)
    have an: "g_ascii_isalnum c \<or> c = CHR ''_''" using a by (auto simp: g_ascii_isalnum_def)
    from line_parse_name_shape [OF r, of pre "[c]"] Cons.prems an
    obtain name' t more where s: "l = Assignment (pre @ name') name' (Some t)"
      "list_all (\<lambda>d. g_ascii_isalnum d \<or> d = CHR ''_'') name'"
      "v = pre @ name' @ CHR ''='' # t" "name' = [c] @ more"
      by auto
    have nm: "shell_is_name name'"
      using s(2,4) a by (simp add: shell_is_name_def)
    have "dropWhile g_ascii_isspace (pre @ name') = name'"
      using Cons.prems(4) False s(4) by (simp add: dropWhile_append2 list_all_iff)
    then show ?thesis
      using s nm by (auto simp: nm_str_skip_leading_spaces_def)
  qed
qed

lemma line_new_parse_ok:
  assumes "LF \<notin> set t"
  shows "line_ok (line_new_parse t)"
proof (cases "line_parse_from t 0 t")
  case None
  then show ?thesis using assms by (simp add: line_new_parse_def line_ok_def)
next
  case (Some l)
  from line_parse_from_shape [OF Some, of "[]"]
  obtain kp k e where "l = Assignment kp k (Some e)" "shell_is_name k"
    "nm_str_skip_leading_spaces kp = k" "t = kp @ CHR ''='' # e"
    by auto
  then show ?thesis using assms Some by (auto simp: line_new_parse_def line_ok_def)
qed

lemma parse_arena_ok: "list_all line_ok (parse_arena p)"
proof (induction p rule: parse_arena.induct)
  case (1 p)
  show ?case
  proof (cases "LF \<in> set p")
    case True
    have "LF \<notin> set (takeWhile (\<lambda>c. c \<noteq> LF) p)"
      by (auto dest: set_takeWhileD)
    with True 1 show ?thesis
      by (simp add: parse_arena.simps [of p] line_new_parse_ok)
  next
    case False
    then show ?thesis
      by (simp add: parse_arena.simps [of p] line_new_parse_ok)
  qed
qed

lemma svOpenFileInternal_ok:
  "svOpenFileInternal name create w = Inr s \<Longrightarrow> list_all line_ok (lineList s)"
  using parse_arena_ok
  by (auto simp: svOpenFileInternal_def svFile_new_def Let_def split: if_splits option.splits)

subsection \<open>Setting a value and writing back\<close>

lemma svSetValue_ok:
  assumes "list_all line_ok (lineList s)" and "shell_is_name k"
  shows "list_all line_ok (lineList (svSetValue sg s k v))"
proof (cases "\<exists>l\<in>set (lineList s). has_key k l")
  case False
  then show ?thesis
    using assms by (cases v) (simp_all add: svSetValue_absent line_new_build_def line_ok_new)
next
  case True
  from last_split [OF this] obtain A y B where
    d: "lineList s = A @ y # B" "has_key k y" "\<forall>l\<in>set B. \<not> has_key k l"
    by blast
  from has_key_cases [OF d(2)] obtain kp t where y: "y = Assignment kp k t" by blast
  have ok: "list_all line_ok (without_key k A)" "list_all line_ok B" "line_ok y"
    using assms(1) d(1) by (simp_all add: without_key_ok)
  have c: "line_ok (Assignment kp k None)" using ok(3) by (simp add: y line_ok_def)
  show ?thesis
  proof (cases v)
    case None
    then show ?thesis
      using ok c svUnsetValue_present [OF d(1) [unfolded y] d(3)] by simp
  next
    case (Some val)
    then show ?thesis
      using ok line_ok_new [OF assms(2)] svSetValue_present [OF d] by simp
  qed
qed

text \<open>
  C4. On a document whose last line for the key has a value, \<^verbatim>\<open>svUnsetValue\<close> (which
  is what \<^verbatim>\<open>svSetValueString\<close> does with the empty string) marks the document modified,
  and writing it back succeeds and leaves on disk what the lines without that key write.
  After \<^verbatim>\<open>svSetValue\<close> with the empty string the lines write the same text with the
  one line \<^verbatim>\<open>key=\<close> in the place of the last assignment; that text goes to disk
  when the document is modified, and a document that is not modified then is the one
  that was given. Read as a file, the first text has no line that assigns to the key,
  and the second has exactly one, with an empty value.
\<close>

theorem unset_and_empty_at_write_back:
  assumes "lineList s = A @ Assignment kp k (Some t) # B"
    and "\<forall>l\<in>set B. \<not> has_key k l"
    and "may_write w" and "ftruncate_ok w" and "dup_ok w"
  shows "svSetValueString sg s k (Some []) = svUnsetValue sg s k \<and>
         fst (svWriteFile (svUnsetValue sg s k) mode w) = None \<and>
         disk (snd (snd (svWriteFile (svUnsetValue sg s k) mode w))) =
           Some (svWriteFile_lines (without_key k (lineList s))) \<and>
         svWriteFile_lines (without_key k (lineList s)) =
           svWriteFile_lines (without_key k A) @ svWriteFile_lines B \<and>
         svWriteFile_lines (lineList (svSetValue sg s k (Some []))) =
           svWriteFile_lines (without_key k A) @ k @ ''='' @ [LF] @ svWriteFile_lines B \<and>
         (if modified (svSetValue sg s k (Some []))
          then disk (snd (snd (svWriteFile (svSetValue sg s k (Some [])) mode w))) =
                 Some (svWriteFile_lines (lineList (svSetValue sg s k (Some []))))
          else svSetValue sg s k (Some []) = s) \<and>
         (list_all line_ok (lineList s) \<longrightarrow>
            key_lines k (svWriteFile_lines (without_key k (lineList s))) = [] \<and>
            key_lines k (svWriteFile_lines (lineList (svSetValue sg s k (Some [])))) =
              [Assignment k k (Some [])])"
proof -
  let ?u = "svUnsetValue sg s k" and ?e = "svSetValue sg s k (Some [])"
  have u: "?u = s\<lparr>lineList := without_key k A @ Assignment kp k None # B, modified := True\<rparr>"
    by (simp add: svUnsetValue_def svUnsetValue_present [OF assms(1,2)])
  have wk: "without_key k (lineList s) = without_key k A @ B"
    using assms(1,2) by (simp add: without_key_split)
  have "modified ?u" by (simp add: u)
  from svWriteFile_modified [OF this assms(3-5), of mode]
  have 1: "fst (svWriteFile ?u mode w) = None"
    and 2: "disk (snd (snd (svWriteFile ?u mode w))) = Some (svWriteFile_lines (lineList ?u))"
    by simp_all
  have 3: "svWriteFile_lines (lineList ?u) = svWriteFile_lines (without_key k (lineList s))"
    by (simp add: u wk svWriteFile_lines_append svWriteFile_lines_Cons)
  have e: "svEscape sg [] = []" by (simp add: svEscape_def)
  have se: "?e = s\<lparr>lineList := without_key k A @ Assignment k k (Some []) # B,
                    modified := (modified s \<or> (\<exists>l\<in>set A. has_key k l) \<or>
                                 Assignment kp k (Some t) \<noteq> Assignment k k (Some []))\<rparr>"
    using svSetValue_present [OF assms(1) _ assms(2), of sg "[]"] by (simp add: e)
  then have 4: "svWriteFile_lines (lineList ?e) =
      svWriteFile_lines (without_key k A) @ k @ ''='' @ [LF] @ svWriteFile_lines B"
    by (simp add: svWriteFile_lines_append svWriteFile_lines_Cons svUnescape_Nil)
  have 5: "key_lines k (svWriteFile_lines (without_key k (lineList s))) = [] \<and>
           key_lines k (svWriteFile_lines (lineList ?e)) = [Assignment k k (Some [])]"
    if ok: "list_all line_ok (lineList s)"
  proof -
    from ok assms(1) have a: "list_all line_ok (without_key k A)" and b: "list_all line_ok B"
      and n: "shell_is_name k"
      by (simp_all add: without_key_ok line_ok_def)
    have l: "line_ok (Assignment k k (Some []))"
      using line_ok_new [OF n, of sg "[]"] by (simp add: e)
    from key_lines_written [OF a b l without_key_none assms(2)] show ?thesis
      by (simp add: svUnescape_Nil 4 wk svWriteFile_lines_append)
  qed
  have 6: "disk (snd (snd (svWriteFile ?e mode w))) = Some (svWriteFile_lines (lineList ?e))"
    if "modified ?e"
    using svWriteFile_modified [OF that assms(3-5), of mode] by simp
  have 7: "?e = s" if "\<not> modified ?e"
  proof -
    from that se have n: "\<not> modified s" "\<forall>l\<in>set A. \<not> has_key k l" "kp = k" "t = []"
      by auto
    then have "without_key k A = A" by (simp add: without_key_def filter_id_conv)
    with se n assms(1) show ?thesis by simp
  qed
  show ?thesis
    using 1 2 3 4 5 6 7
    by (simp add: svSetValueString_def svUnsetValue_def wk svWriteFile_lines_append)
qed

theorem unset_and_empty_at_write_back_witness:
  "disk (snd (snd (svWriteFile
      (svUnsetValue True (doc [Raw ''# c'', Assignment ''FOO'' ''FOO'' (Some ''bar'')]) ''FOO'')
      0 (world_with (''# c'' @ [LF] @ ''FOO=bar'' @ [LF]))))) = Some (''# c'' @ [LF]) \<and>
   key_lines ''FOO'' (''# c'' @ [LF]) = [] \<and>
   svWriteFile_lines (lineList
      (svSetValue True (doc [Raw ''# c'', Assignment ''FOO'' ''FOO'' (Some ''bar'')]) ''FOO''
         (Some []))) = ''# c'' @ [LF] @ ''FOO='' @ [LF] \<and>
   key_lines ''FOO'' (''# c'' @ [LF] @ ''FOO='' @ [LF]) = [Assignment ''FOO'' ''FOO'' (Some [])]"
proof -
  let ?d = "doc [Raw ''# c'', Assignment ''FOO'' ''FOO'' (Some ''bar'')]"
  let ?w = "world_with (''# c'' @ [LF] @ ''FOO=bar'' @ [LF])"
  have l: "lineList ?d = [Raw ''# c''] @ Assignment ''FOO'' ''FOO'' (Some ''bar'') # []"
    by (simp add: doc_def)
  have b: "\<forall>l\<in>set []. \<not> has_key ''FOO'' l" by simp
  have io: "may_write ?w" "ftruncate_ok ?w" "dup_ok ?w" by (simp_all add: world_with_def)
  have o: "list_all line_ok (lineList ?d)"
    by (simp add: doc_def line_ok_def shell_is_name_def g_ascii_isalpha_def g_ascii_isalnum_def
        nm_str_skip_leading_spaces_def g_ascii_isspace_def)
  have wk: "without_key ''FOO'' (lineList ?d) = [Raw ''# c'']"
    "without_key ''FOO'' [Raw ''# c''] = [Raw ''# c'']"
    by (simp_all add: doc_def without_key_def)
  have w: "svWriteFile_lines [Raw ''# c''] = ''# c'' @ [LF]" "svWriteFile_lines [] = []"
    by (simp_all add: svWriteFile_lines_def nm_str_skip_leading_spaces_def g_ascii_isspace_def)
  from unset_and_empty_at_write_back [OF l b io, of True 0] o
  have "disk (snd (snd (svWriteFile (svUnsetValue True ?d ''FOO'') 0 ?w))) =
          Some (svWriteFile_lines (without_key ''FOO'' (lineList ?d)))"
    and "svWriteFile_lines (lineList (svSetValue True ?d ''FOO'' (Some []))) =
          svWriteFile_lines (without_key ''FOO'' [Raw ''# c'']) @ ''FOO'' @ ''='' @ [LF] @
          svWriteFile_lines []"
    and "key_lines ''FOO'' (svWriteFile_lines (without_key ''FOO'' (lineList ?d))) = []"
    and "key_lines ''FOO'' (svWriteFile_lines (lineList (svSetValue True ?d ''FOO'' (Some [])))) =
          [Assignment ''FOO'' ''FOO'' (Some [])]"
    by blast+
  then show ?thesis unfolding wk w by simp
qed

text \<open>
  C5, as the code has it. On a document with exactly one assignment for the key,
  \<^verbatim>\<open>svSetValue\<close> with a value makes the stored text the encoding of the value and
  reduces the key prefix to the key; every other line stays. The document is marked
  modified if and only if the encoding differs from the stored text (or there was none)
  or the key prefix had leading white space; otherwise the document is left as it was.
\<close>

theorem set_single_assignment:
  assumes "lineList s = A @ Assignment kp k t # B"
    and "\<forall>l\<in>set A. \<not> has_key k l" and "\<forall>l\<in>set B. \<not> has_key k l"
  shows "svSetValue sg s k (Some v) =
           s\<lparr>lineList := A @ Assignment k k (Some (svEscape sg v)) # B,
             modified := (modified s \<or> t \<noteq> Some (svEscape sg v) \<or> kp \<noteq> k)\<rparr>"
proof -
  have a: "without_key k A = A"
    using assms(2) by (simp add: without_key_def filter_id_conv)
  have b: "(modified s \<or> (\<exists>l\<in>set A. has_key k l) \<or>
            Assignment kp k t \<noteq> Assignment k k (Some (svEscape sg v))) =
           (modified s \<or> t \<noteq> Some (svEscape sg v) \<or> kp \<noteq> k)"
    using assms(2) by auto
  show ?thesis
    by (simp only: svSetValue_present [OF assms(1) line_key.simps(2) assms(3)] a b)
qed

theorem set_single_assignment_witness:
  "svSetValue True (doc [Raw ''# c'', Assignment ''FOO'' ''FOO'' (Some ''bar'')]) ''FOO''
     (Some ''bar'') = doc [Raw ''# c'', Assignment ''FOO'' ''FOO'' (Some ''bar'')] \<and>
   svSetValue True (doc [Raw ''# c'', Assignment ''FOO'' ''FOO'' (Some ''bar'')]) ''FOO''
     (Some ''a b'') =
   (doc [Raw ''# c'', Assignment ''FOO'' ''FOO'' (Some ([DQ] @ ''a b'' @ [DQ]))])
     \<lparr>modified := True\<rparr>"
  using set_single_assignment [of "doc [Raw ''# c'', Assignment ''FOO'' ''FOO'' (Some ''bar'')]"
      "[Raw ''# c'']" "''FOO''" "''FOO''" "Some ''bar''" "[]" True "''bar''"]
    set_single_assignment [of "doc [Raw ''# c'', Assignment ''FOO'' ''FOO'' (Some ''bar'')]"
      "[Raw ''# c'']" "''FOO''" "''FOO''" "Some ''bar''" "[]" True "''a b''"]
  by (simp add: doc_def svEscape_def char_req_escape_def char_req_quotes_def char_val_def)

text \<open>
  C5 as stated fails: the line \<^verbatim>\<open>  FOO=bar\<close> stores \<^verbatim>\<open>bar\<close>, the encoding of
  \<^verbatim>\<open>bar\<close> is the same text, and yet setting \<^verbatim>\<open>FOO\<close> to \<^verbatim>\<open>bar\<close> changes the
  record (its prefix) and marks the document modified.
\<close>

theorem set_single_assignment_prefix_counterexample:
  "line_new_parse ''  FOO=bar'' = Assignment ''  FOO'' ''FOO'' (Some ''bar'') \<and>
   svEscape True ''bar'' = ''bar'' \<and>
   svSetValue True (doc [Assignment ''  FOO'' ''FOO'' (Some ''bar'')]) ''FOO'' (Some ''bar'') =
     (doc [Assignment ''FOO'' ''FOO'' (Some ''bar'')])\<lparr>modified := True\<rparr>"
proof -
  have p: "line_new_parse ''  FOO=bar'' = Assignment ''  FOO'' ''FOO'' (Some ''bar'')"
    by (simp add: line_new_parse_def g_ascii_isspace_def g_ascii_isalpha_def g_ascii_isalnum_def
        g_ascii_isdigit_def)
  have e: "svEscape True ''bar'' = ''bar''"
    by (simp add: svEscape_def char_req_escape_def char_req_quotes_def char_val_def)
  have "lineList (doc [Assignment ''  FOO'' ''FOO'' (Some ''bar'')]) =
        [] @ Assignment ''  FOO'' ''FOO'' (Some ''bar'') # []"
    by (simp add: doc_def)
  from svSetValue_present [OF this, of "''FOO''" True "''bar''"] p e show ?thesis
    by (simp add: doc_def without_key_def)
qed

text \<open>
  C6. On a document with several assignments for the key, \<^verbatim>\<open>svSetValue\<close> with a value
  deletes every one but the last, which takes the encoded value, and marks the document
  modified; writing it back succeeds and leaves on disk the text of the other lines with
  the line \<^verbatim>\<open>key=value\<close> in the place of the last assignment. Read as a file, that
  text has exactly one line that assigns to the key.
\<close>

theorem set_collapses_duplicates:
  assumes "lineList s = A @ y # B" and "has_key k y" and "\<forall>l\<in>set B. \<not> has_key k l"
    and "\<exists>l\<in>set A. has_key k l" and "NUL \<notin> set v"
    and "may_write w" and "ftruncate_ok w" and "dup_ok w"
  shows "lineList (svSetValue sg s k (Some v)) =
           without_key k A @ Assignment k k (Some (svEscape sg v)) # B \<and>
         modified (svSetValue sg s k (Some v)) \<and>
         fst (svWriteFile (svSetValue sg s k (Some v)) mode w) = None \<and>
         disk (snd (snd (svWriteFile (svSetValue sg s k (Some v)) mode w))) =
           Some (svWriteFile_lines (without_key k A) @ k @ ''='' @ svEscape sg v @ [LF] @
                 svWriteFile_lines B) \<and>
         (list_all line_ok (lineList s) \<longrightarrow>
            key_lines k (svWriteFile_lines (lineList (svSetValue sg s k (Some v)))) =
              [Assignment k k (Some (svEscape sg v))])"
proof -
  let ?s = "svSetValue sg s k (Some v)"
  have l: "lineList ?s = without_key k A @ Assignment k k (Some (svEscape sg v)) # B"
    and m: "modified ?s"
    using assms(4) by (simp_all add: svSetValue_present [OF assms(1-3)])
  have u: "svUnescape (svEscape sg v) \<noteq> None"
    using assms(5) by (simp add: svUnescape_svEscape)
  have t: "svWriteFile_lines (lineList ?s) =
        svWriteFile_lines (without_key k A) @ k @ ''='' @ svEscape sg v @ [LF] @
        svWriteFile_lines B"
    using u by (simp add: l svWriteFile_lines_append svWriteFile_lines_Cons)
  with svWriteFile_modified [OF m assms(6-8), of mode]
  have d: "fst (svWriteFile ?s mode w) = None \<and>
           disk (snd (snd (svWriteFile ?s mode w))) =
             Some (svWriteFile_lines (without_key k A) @ k @ ''='' @ svEscape sg v @ [LF] @
                   svWriteFile_lines B)"
    by simp
  have r: "key_lines k (svWriteFile_lines (lineList ?s)) =
           [Assignment k k (Some (svEscape sg v))]"
    if ok: "list_all line_ok (lineList s)"
  proof -
    from has_key_cases [OF assms(2)] obtain kp e where y: "y = Assignment kp k e" by blast
    from ok assms(1) y have a: "list_all line_ok (without_key k A)" and b: "list_all line_ok B"
      and n: "shell_is_name k"
      by (simp_all add: without_key_ok line_ok_def)
    from key_lines_written(1) [OF a b line_ok_new [OF n, of sg v] without_key_none assms(3)] u
    show ?thesis by (simp add: t)
  qed
  show ?thesis using l m d r by simp
qed

theorem set_collapses_duplicates_witness:
  "svCreateFile ''ifcfg-eth0'' (world_with (''FOO=1'' @ [LF] @ ''FOO=2'' @ [LF] @ ''FOO=3'' @ [LF])) =
     Inr ((doc [Assignment ''FOO'' ''FOO'' (Some ''1''), Assignment ''FOO'' ''FOO'' (Some ''2''),
                Assignment ''FOO'' ''FOO'' (Some ''3'')])\<lparr>fd := 3\<rparr>) \<and>
   disk (snd (snd (svWriteFile
      (svSetValue True
         ((doc [Assignment ''FOO'' ''FOO'' (Some ''1''), Assignment ''FOO'' ''FOO'' (Some ''2''),
                Assignment ''FOO'' ''FOO'' (Some ''3'')])\<lparr>fd := 3\<rparr>) ''FOO'' (Some ''4''))
      0 (world_with (''FOO=1'' @ [LF] @ ''FOO=2'' @ [LF] @ ''FOO=3'' @ [LF]))))) =
     Some (''FOO=4'' @ [LF]) \<and>
   key_lines ''FOO'' (''FOO=4'' @ [LF]) = [Assignment ''FOO'' ''FOO'' (Some ''4'')]"
proof -
  let ?d = "(doc [Assignment ''FOO'' ''FOO'' (Some ''1''), Assignment ''FOO'' ''FOO'' (Some ''2''),
                Assignment ''FOO'' ''FOO'' (Some ''3'')])\<lparr>fd := 3\<rparr>"
  let ?w = "world_with (''FOO=1'' @ [LF] @ ''FOO=2'' @ [LF] @ ''FOO=3'' @ [LF])"
  have o: "svCreateFile ''ifcfg-eth0'' ?w = Inr ?d"
    by (simp add: svCreateFile_def svOpenFileInternal_def world_with_def open_rdwr_def
        open_rdonly_def nm_utils_fd_get_contents_def c_str_def svFile_new_def doc_def
        parse_arena.simps line_new_parse_def g_ascii_isspace_def g_ascii_isalpha_def
        g_ascii_isalnum_def g_ascii_isdigit_def)
  have e: "svEscape True ''4'' = ''4''"
    by (simp add: svEscape_def char_req_escape_def char_req_quotes_def char_val_def)
  have k: "list_all line_ok (lineList ?d)"
    by (simp add: doc_def line_ok_def shell_is_name_def g_ascii_isalpha_def g_ascii_isalnum_def
        nm_str_skip_leading_spaces_def g_ascii_isspace_def)
  have l: "lineList ?d = [Assignment ''FOO'' ''FOO'' (Some ''1''),
          Assignment ''FOO'' ''FOO'' (Some ''2'')] @ Assignment ''FOO'' ''FOO'' (Some ''3'') # []"
    by (simp add: doc_def)
  have h: "has_key ''FOO'' (Assignment ''FOO'' ''FOO'' (Some ''3''))"
    "\<forall>l\<in>set []. \<not> has_key ''FOO'' l"
    "\<exists>l\<in>set [Assignment ''FOO'' ''FOO'' (Some ''1''), Assignment ''FOO'' ''FOO'' (Some ''2'')].
       has_key ''FOO'' l"
    "NUL \<notin> set ''4''"
    by simp_all
  have io: "may_write ?w" "ftruncate_ok ?w" "dup_ok ?w" by (simp_all add: world_with_def)
  from set_collapses_duplicates [OF l h io, of True 0] k
  have "disk (snd (snd (svWriteFile (svSetValue True ?d ''FOO'' (Some ''4'')) 0 ?w))) =
          Some (svWriteFile_lines (without_key ''FOO'' [Assignment ''FOO'' ''FOO'' (Some ''1''),
            Assignment ''FOO'' ''FOO'' (Some ''2'')]) @ ''FOO'' @ ''='' @ svEscape True ''4'' @
            [LF] @ svWriteFile_lines [])"
    and "lineList (svSetValue True ?d ''FOO'' (Some ''4'')) =
          without_key ''FOO'' [Assignment ''FOO'' ''FOO'' (Some ''1''),
            Assignment ''FOO'' ''FOO'' (Some ''2'')] @
          Assignment ''FOO'' ''FOO'' (Some (svEscape True ''4'')) # []"
    and "key_lines ''FOO'' (svWriteFile_lines (lineList (svSetValue True ?d ''FOO'' (Some ''4'')))) =
          [Assignment ''FOO'' ''FOO'' (Some (svEscape True ''4''))]"
    by blast+
  moreover have "without_key ''FOO'' [Assignment ''FOO'' ''FOO'' (Some ''1''),
            Assignment ''FOO'' ''FOO'' (Some ''2'')] = []"
    by (simp add: without_key_def)
  moreover have "svWriteFile_lines [Assignment ''FOO'' ''FOO'' (Some ''4'')] = ''FOO=4'' @ [LF]"
    by (simp add: svWriteFile_lines_def svUnescape_def out_value_def g_ascii_isspace_def)
  ultimately show ?thesis using o by (simp add: e svWriteFile_lines_Nil)
qed

end
